theory Spec2Isabelle
  imports Main "HOL-Library.Word" "HOL-Library.Code_Target_Numeral"
begin

section \<open>The growable-buffer formatter \<^verbatim>\<open>log_to_string\<close>\<close>

text \<open>
  The source is one C file, \<^verbatim>\<open>src/log-to-string.c\<close>, with two functions:
  \<^verbatim>\<open>log_to_string\<close> (a retry loop around \<^verbatim>\<open>vsnprintf\<close> with a growing heap buffer) and
  \<^verbatim>\<open>log_to_string_free\<close>. The functions of the C library that they call
  (\<^verbatim>\<open>malloc\<close>, \<^verbatim>\<open>realloc\<close>, \<^verbatim>\<open>free\<close>, \<^verbatim>\<open>va_copy\<close>, \<^verbatim>\<open>va_end\<close>, \<^verbatim>\<open>vsnprintf\<close>) are not part of
  the repository. They are modelled below after ISO C99 over an explicit state; what an
  allocation request answers and what the formatting facility reports and writes are
  parameters of the model.
\<close>

subsection \<open>Machine integers\<close>

text \<open>
  The C \<^verbatim>\<open>int\<close> is a 32-bit two's complement word. Signed overflow (undefined in ISO C) is
  modelled as wrap-around. A \<^verbatim>\<open>size_t\<close> is an unsigned 64-bit number (LP64); the conversion
  of an \<^verbatim>\<open>int\<close> argument to \<^verbatim>\<open>size_t\<close> reduces its value modulo \<open>2 ^ 64\<close>.
\<close>

type_synonym cint = "32 word"

definition size_t_of_int :: "cint \<Rightarrow> nat" where
  "size_t_of_int i = nat (sint i mod 2 ^ 64)"

definition PTRDIFF_MAX :: nat where
  "PTRDIFF_MAX = 2 ^ 63 - 1"

subsection \<open>State: heap, argument lists, log of library calls\<close>

type_synonym addr = nat

datatype ptr = NULL | Ptr addr

text \<open>A heap block: its capacity in bytes and the bytes written from its start so far.\<close>

record block =
  cap :: nat
  data :: string

text \<open>
  The two \<^verbatim>\<open>va_list\<close> objects of the source: the parameter \<^verbatim>\<open>vargs\<close> (the caller's) and the
  local \<^verbatim>\<open>vargs_copy\<close>. A live \<^verbatim>\<open>va_list\<close> holds the arguments it has not yet handed out.
\<close>

datatype va_name = Vargs | Vargs_copy

datatype event =
    Malloc nat ptr
  | Realloc addr nat ptr
  | Free addr
  | Va_copy va_name va_name
  | Vsnprintf va_name ptr nat cint
  | Va_end va_name

datatype error = Invalid_pointer | Buffer_overflow | Invalid_va_list

record 'a state =
  heap :: "(addr \<times> block) list"
  nreq :: nat
  va :: "va_name \<Rightarrow> 'a list option"
  trace :: "event list"

text \<open>
  The allocator answers the \<open>i\<close>-th allocation request, for \<open>n\<close> bytes, with success
  (\<open>True\<close>) or failure. The formatting facility, given the buffer size, the format string and
  the arguments still in the \<^verbatim>\<open>va_list\<close>, reports an \<^verbatim>\<open>int\<close>, writes bytes to the start of the
  buffer and leaves the \<^verbatim>\<open>va_list\<close> advanced.
\<close>

type_synonym allocator = "nat \<Rightarrow> nat \<Rightarrow> bool"

record 'a vs_result =
  ret :: cint
  written :: string
  rest :: "'a list"

type_synonym 'a formatter = "nat \<Rightarrow> string \<Rightarrow> 'a list \<Rightarrow> 'a vs_result"

definition NUL :: char where
  "NUL = CHR 0x00"

subsection \<open>The C library\<close>

fun top :: "(addr \<times> block) list \<Rightarrow> addr" where
  "top [] = 0"
| "top ((a, b) # h) = max a (top h)"

definition fresh :: "(addr \<times> block) list \<Rightarrow> addr" where
  "fresh h = Suc (top h)"

fun release :: "addr \<Rightarrow> (addr \<times> block) list \<Rightarrow> (addr \<times> block) list" where
  "release a [] = []"
| "release a ((a', b) # h) = (if a = a' then release a h else (a', b) # release a h)"

fun store :: "addr \<Rightarrow> block \<Rightarrow> (addr \<times> block) list \<Rightarrow> (addr \<times> block) list" where
  "store a b [] = []"
| "store a b ((a', b') # h) = (if a = a' then (a, b) # h else (a', b') # store a b h)"

definition log_event :: "event \<Rightarrow> 'a state \<Rightarrow> 'a state" where
  "log_event e st = st\<lparr>trace := trace st @ [e]\<rparr>"

text \<open>\<^verbatim>\<open>malloc(n)\<close>: a fresh block of \<open>n\<close> uninitialised bytes, or \<^verbatim>\<open>NULL\<close>.\<close>

definition malloc :: "allocator \<Rightarrow> nat \<Rightarrow> 'a state \<Rightarrow> ptr \<times> 'a state" where
  "malloc ok n st =
     (if ok (nreq st) n
      then let a = fresh (heap st)
           in (Ptr a, log_event (Malloc n (Ptr a))
                 (st\<lparr>heap := (a, \<lparr>cap = n, data = []\<rparr>) # heap st, nreq := Suc (nreq st)\<rparr>))
      else (NULL, log_event (Malloc n NULL) (st\<lparr>nreq := Suc (nreq st)\<rparr>)))"

text \<open>
  \<^verbatim>\<open>realloc(p, n)\<close>: on success the old block is released and a new block of \<open>n\<close> bytes at a
  new address holds the old contents up to the smaller of the two sizes; on failure the
  result is \<^verbatim>\<open>NULL\<close> and the old block stays as it is. \<^verbatim>\<open>realloc(NULL, n)\<close> is \<^verbatim>\<open>malloc(n)\<close>.
  A pointer that is not a live block is an error. A request for zero bytes (implementation
  defined in ISO C) is answered like any other; the loop makes none as long as \<^verbatim>\<open>size\<close> is
  positive, which it stays when the allocator refuses requests above \<open>PTRDIFF_MAX\<close>.
\<close>

definition realloc :: "allocator \<Rightarrow> ptr \<Rightarrow> nat \<Rightarrow> 'a state \<Rightarrow> error + ptr \<times> 'a state" where
  "realloc ok p n st =
     (case p of
        NULL \<Rightarrow> Inr (malloc ok n st)
      | Ptr a \<Rightarrow>
          (case map_of (heap st) a of
             None \<Rightarrow> Inl Invalid_pointer
           | Some b \<Rightarrow>
               if ok (nreq st) n
               then let a' = fresh (heap st)
                    in Inr (Ptr a', log_event (Realloc a n (Ptr a'))
                          (st\<lparr>heap := (a', \<lparr>cap = n, data = take n (data b)\<rparr>) # release a (heap st),
                              nreq := Suc (nreq st)\<rparr>))
               else Inr (NULL, log_event (Realloc a n NULL) (st\<lparr>nreq := Suc (nreq st)\<rparr>))))"

text \<open>\<^verbatim>\<open>free(p)\<close>: no action for \<^verbatim>\<open>NULL\<close>; otherwise \<open>p\<close> must be a live block, which is released.\<close>

definition free :: "ptr \<Rightarrow> 'a state \<Rightarrow> error + 'a state" where
  "free p st =
     (case p of
        NULL \<Rightarrow> Inr st
      | Ptr a \<Rightarrow>
          (case map_of (heap st) a of
             None \<Rightarrow> Inl Invalid_pointer
           | Some b \<Rightarrow> Inr (log_event (Free a) (st\<lparr>heap := release a (heap st)\<rparr>))))"

text \<open>\<^verbatim>\<open>va_copy(dst, src)\<close> makes \<open>dst\<close> a live copy of the live \<open>src\<close>; \<^verbatim>\<open>va_end(ap)\<close> ends \<open>ap\<close>.\<close>

definition va_copy :: "va_name \<Rightarrow> va_name \<Rightarrow> 'a state \<Rightarrow> error + 'a state" where
  "va_copy dst src st =
     (case va st src of
        None \<Rightarrow> Inl Invalid_va_list
      | Some args \<Rightarrow> Inr (log_event (Va_copy dst src) (st\<lparr>va := (va st)(dst := Some args)\<rparr>)))"

definition va_end :: "va_name \<Rightarrow> 'a state \<Rightarrow> error + 'a state" where
  "va_end ap st =
     (case va st ap of
        None \<Rightarrow> Inl Invalid_va_list
      | Some args \<Rightarrow> Inr (log_event (Va_end ap) (st\<lparr>va := (va st)(ap := None)\<rparr>)))"

text \<open>
  \<^verbatim>\<open>vsnprintf(buffer, n, fmt, ap)\<close>: the facility \<open>vs\<close> sees the size \<open>n\<close>, the format and the
  arguments left in \<open>ap\<close>; the bytes it writes go to the start of the block, which must be
  live and large enough for them; \<open>ap\<close> is left advanced.
\<close>

definition vsnprintf ::
  "'a formatter \<Rightarrow> ptr \<Rightarrow> nat \<Rightarrow> string \<Rightarrow> va_name \<Rightarrow> 'a state \<Rightarrow> error + cint \<times> 'a state" where
  "vsnprintf vs buffer n fmt ap st =
     (case va st ap of
        None \<Rightarrow> Inl Invalid_va_list
      | Some args \<Rightarrow>
          (case buffer of
             NULL \<Rightarrow> Inl Invalid_pointer
           | Ptr a \<Rightarrow>
               (case map_of (heap st) a of
                  None \<Rightarrow> Inl Invalid_pointer
                | Some b \<Rightarrow>
                    let r = vs n fmt args
                    in if length (written r) \<le> cap b
                       then Inr (ret r, log_event (Vsnprintf ap buffer n (ret r))
                              (st\<lparr>heap := store a (b\<lparr>data := written r @ drop (length (written r)) (data b)\<rparr>) (heap st),
                                  va := (va st)(ap := Some (rest r))\<rparr>))
                       else Inl Buffer_overflow)))"

subsection \<open>\<^verbatim>\<open>log_to_string\<close>\<close>

text \<open>
  Lines 13 to 16, one rendering attempt:
  \<^verbatim>\<open>va_copy(vargs_copy, vargs); n = vsnprintf(buffer, size, fmt, vargs_copy); va_end(vargs_copy);\<close>
\<close>

definition attempt ::
  "'a formatter \<Rightarrow> string \<Rightarrow> ptr \<Rightarrow> cint \<Rightarrow> 'a state \<Rightarrow> error + cint \<times> 'a state" where
  "attempt vs fmt buffer sz st =
     (case va_copy Vargs_copy Vargs st of
        Inl e \<Rightarrow> Inl e
      | Inr st1 \<Rightarrow>
          (case vsnprintf vs buffer (size_t_of_int sz) fmt Vargs_copy st1 of
             Inl e \<Rightarrow> Inl e
           | Inr (n, st2) \<Rightarrow>
               (case va_end Vargs_copy st2 of
                  Inl e \<Rightarrow> Inl e
                | Inr st3 \<Rightarrow> Inr (n, st3))))"

text \<open>Lines 22 to 25, the growth policy.\<close>

definition grow :: "cint \<Rightarrow> cint \<Rightarrow> cint" where
  "grow sz n = (if - 1 <s n then n + 1 else sz * 2)"

text \<open>
  Lines 13 to 32, one iteration of \<^verbatim>\<open>while (1)\<close> on the variables \<^verbatim>\<open>buffer\<close> and \<^verbatim>\<open>size\<close>:
  \<open>Inl\<close> leaves the function (with a fault of the library, or with the returned pointer),
  \<open>Inr\<close> is the next iteration.
\<close>

type_synonym 'a result = "error + ptr \<times> 'a state"

type_synonym 'a config = "ptr \<times> cint \<times> 'a state"

definition body :: "allocator \<Rightarrow> 'a formatter \<Rightarrow> string \<Rightarrow> 'a config \<Rightarrow> 'a result + 'a config" where
  "body ok vs fmt c =
     (case c of (buffer, sz, st) \<Rightarrow>
        (case attempt vs fmt buffer sz st of
           Inl e \<Rightarrow> Inl (Inl e)
         | Inr (n, st1) \<Rightarrow>
             if - 1 <s n \<and> n <s sz then Inl (Inr (buffer, st1))
             else
               let sz' = grow sz n
               in (case realloc ok buffer (size_t_of_int sz') st1 of
                     Inl e \<Rightarrow> Inl (Inl e)
                   | Inr (new_buffer, st2) \<Rightarrow>
                       if new_buffer = NULL
                       then (case free buffer st2 of
                               Inl e \<Rightarrow> Inl (Inl e)
                             | Inr st3 \<Rightarrow> Inl (Inr (NULL, st3)))
                       else Inr (new_buffer, sz', st2))))"

text \<open>The loop may run forever: not returning is the value \<open>None\<close>.\<close>

partial_function (option) loop ::
  "allocator \<Rightarrow> 'a formatter \<Rightarrow> string \<Rightarrow> 'a config \<Rightarrow> 'a result option" where
  "loop ok vs fmt c =
     (case body ok vs fmt c of
        Inl r \<Rightarrow> Some r
      | Inr c' \<Rightarrow> loop ok vs fmt c')"

declare loop.simps [code]

text \<open>Lines 5 to 36. The argument list \<^verbatim>\<open>vargs\<close> is the \<^verbatim>\<open>va_list\<close> named \<open>Vargs\<close> of the state.\<close>

definition log_to_string ::
  "allocator \<Rightarrow> 'a formatter \<Rightarrow> string \<Rightarrow> 'a state \<Rightarrow> 'a result option" where
  "log_to_string ok vs fmt st =
     (let sz = 256;
          (buffer, st1) = malloc ok (size_t_of_int sz) st
      in if buffer = NULL then Some (Inr (NULL, st1))
         else loop ok vs fmt (buffer, sz, st1))"

text \<open>Lines 38 to 40.\<close>

definition log_to_string_free :: "ptr \<Rightarrow> 'a state \<Rightarrow> error + 'a state" where
  "log_to_string_free buffer st = free buffer st"

text \<open>The first \<open>k\<close> iterations of the loop.\<close>

fun run :: "allocator \<Rightarrow> 'a formatter \<Rightarrow> string \<Rightarrow> nat \<Rightarrow> 'a config \<Rightarrow> 'a result + 'a config" where
  "run ok vs fmt 0 c = Inr c"
| "run ok vs fmt (Suc k) c =
     (case body ok vs fmt c of
        Inl r \<Rightarrow> Inl r
      | Inr c' \<Rightarrow> run ok vs fmt k c')"


subsection \<open>Reading the log\<close>

text \<open>The library calls made between two states, oldest first.\<close>

definition since :: "'a state \<Rightarrow> 'a state \<Rightarrow> event list" where
  "since st st' = drop (length (trace st)) (trace st')"

text \<open>The values reported by the rendering attempts, and the buffer sizes given to them.\<close>

fun reports :: "event list \<Rightarrow> cint list" where
  "reports [] = []"
| "reports (Vsnprintf ap p n r # es) = r # reports es"
| "reports (e # es) = reports es"

fun caps :: "event list \<Rightarrow> nat list" where
  "caps [] = []"
| "caps (Vsnprintf ap p n r # es) = n # caps es"
| "caps (e # es) = caps es"

text \<open>The sizes asked of \<^verbatim>\<open>realloc\<close>.\<close>

fun growths :: "event list \<Rightarrow> nat list" where
  "growths [] = []"
| "growths (Realloc a n p # es) = n # growths es"
| "growths (e # es) = growths es"

text \<open>An allocation request that was answered with \<^verbatim>\<open>NULL\<close>.\<close>

fun refusal :: "event \<Rightarrow> bool" where
  "refusal (Malloc n p) = (p = NULL)"
| "refusal (Realloc a n p) = (p = NULL)"
| "refusal e = False"

definition refused :: "event list \<Rightarrow> bool" where
  "refused es = list_ex refusal es"

text \<open>
  The discipline of the argument lists: every rendering attempt reads \<open>Vargs_copy\<close>, which
  was copied from \<open>Vargs\<close> by the call just before it and is ended by the call just after it;
  no other call touches a \<^verbatim>\<open>va_list\<close>.
\<close>

fun va_discipline :: "event list \<Rightarrow> bool" where
  "va_discipline [] = True"
| "va_discipline (Va_copy dst src # Vsnprintf ap p n r # Va_end ap' # es) =
     (dst = Vargs_copy \<and> src = Vargs \<and> ap = Vargs_copy \<and> ap' = Vargs_copy \<and> va_discipline es)"
| "va_discipline (Va_copy dst src # es) = False"
| "va_discipline (Vsnprintf ap p n r # es) = False"
| "va_discipline (Va_end ap # es) = False"
| "va_discipline (e # es) = va_discipline es"

text \<open>
  Every rendering attempt of a log was made on the arguments \<open>args\<close>: its report is what the
  facility reports for its size, the format and \<open>args\<close>.
\<close>

definition rendered :: "'a formatter \<Rightarrow> string \<Rightarrow> 'a list \<Rightarrow> event list \<Rightarrow> bool" where
  "rendered vs fmt args es \<longleftrightarrow>
     list_all2 (\<lambda>n r. r = ret (vs n fmt args)) (caps es) (reports es)"

subsection \<open>The configurations the loop runs through\<close>

text \<open>
  The buffer is the newest block \<open>(a, b)\<close> of the heap, on top of the blocks \<open>h0\<close> that were
  there before the call; its capacity is the value of \<^verbatim>\<open>size\<close> as a \<^verbatim>\<open>size_t\<close>; the caller's
  argument list is live and holds \<open>args\<close>.
\<close>

definition live ::
  "'a list \<Rightarrow> (addr \<times> block) list \<Rightarrow> addr \<Rightarrow> block \<Rightarrow> cint \<Rightarrow> 'a state \<Rightarrow> bool" where
  "live args h0 a b sz st \<longleftrightarrow>
     heap st = (a, b) # h0 \<and> a \<notin> fst ` set h0 \<and> cap b = size_t_of_int sz \<and>
     va st Vargs = Some args"

text \<open>The library calls of one rendering attempt on buffer \<open>a\<close> that reports \<open>n\<close>.\<close>

definition attempt_events :: "addr \<Rightarrow> cint \<Rightarrow> cint \<Rightarrow> event list" where
  "attempt_events a sz n =
     [Va_copy Vargs_copy Vargs, Vsnprintf Vargs_copy (Ptr a) (size_t_of_int sz) n,
      Va_end Vargs_copy]"

subsection \<open>Assumptions on the platform\<close>

text \<open>
  No allocator of an LP64 platform grants a request of more than \<open>PTRDIFF_MAX\<close> bytes
  (an object cannot be larger, and the address space is smaller).
\<close>

definition bounded :: "allocator \<Rightarrow> bool" where
  "bounded ok \<longleftrightarrow> (\<forall>i n. PTRDIFF_MAX < n \<longrightarrow> \<not> ok i n)"

text \<open>
  What the source relies on in the formatting facility, with \<open>render\<close> the complete text
  of a format and its arguments: a report that is non-negative and less than the buffer size
  is the length of the complete text, and the complete text and its terminator have been
  written. ISO C99 facilities and the older ones that report \<open>-1\<close> on truncation both
  satisfy this.
\<close>

definition sound :: "(string \<Rightarrow> 'a list \<Rightarrow> string) \<Rightarrow> 'a formatter \<Rightarrow> bool" where
  "sound render vs \<longleftrightarrow>
     (\<forall>n fmt args.
        0 \<le> sint (ret (vs n fmt args)) \<and> sint (ret (vs n fmt args)) < int n \<longrightarrow>
          sint (ret (vs n fmt args)) = int (length (render fmt args)) \<and>
          written (vs n fmt args) = render fmt args @ [NUL])"

text \<open>A facility that never writes more than the size it was given.\<close>

definition within :: "'a formatter \<Rightarrow> bool" where
  "within vs \<longleftrightarrow> (\<forall>n fmt args. length (written (vs n fmt args)) \<le> n)"

subsection \<open>Formatting facilities and states to run the model on\<close>

text \<open>
  The facility of ISO C99 (7.19.6.12) for a rendering function \<open>render\<close>, where a format
  \<open>fmt\<close> reads \<open>used fmt\<close> arguments: it reports the length of the complete text (a negative
  value if that is no \<^verbatim>\<open>int\<close>) and writes as much of the text as fits with a terminator.
\<close>

definition c99_vsnprintf :: "(string \<Rightarrow> 'a list \<Rightarrow> string) \<Rightarrow> (string \<Rightarrow> nat) \<Rightarrow> 'a formatter" where
  "c99_vsnprintf render used n fmt args =
     (let s = render fmt args
      in \<lparr>ret = (if length s \<le> 2147483647 then of_nat (length s) else - 1),
          written = (if n = 0 then [] else take (n - 1) s @ [NUL]),
          rest = drop (used fmt) args\<rparr>)"

text \<open>
  The facility of the C libraries older than ISO C99 that the second branch of the growth
  policy is written for: it reports \<open>-1\<close> whenever the text and its terminator do not fit.
\<close>

definition legacy_vsnprintf :: "(string \<Rightarrow> 'a list \<Rightarrow> string) \<Rightarrow> (string \<Rightarrow> nat) \<Rightarrow> 'a formatter" where
  "legacy_vsnprintf render used n fmt args =
     (let s = render fmt args
      in \<lparr>ret = (if length s < n \<and> length s \<le> 2147483647 then of_nat (length s) else - 1),
          written = (if n = 0 then [] else take (n - 1) s @ [NUL]),
          rest = drop (used fmt) args\<rparr>)"

text \<open>A facility that fails on every call: it reports \<open>-1\<close> and writes nothing.\<close>

definition failing_vsnprintf :: "'a formatter" where
  "failing_vsnprintf n fmt args = \<lparr>ret = - 1, written = [], rest = args\<rparr>"

text \<open>A small rendering function: \<^verbatim>\<open>%s\<close> stands for the next argument, \<^verbatim>\<open>%%\<close> for a percent sign.\<close>

fun render_s :: "string \<Rightarrow> string list \<Rightarrow> string" where
  "render_s [] args = []"
| "render_s [c] args = [c]"
| "render_s (c # d # fmt) args =
     (if c = CHR ''%'' \<and> d = CHR ''s''
      then (case args of [] \<Rightarrow> render_s fmt [] | x # xs \<Rightarrow> x @ render_s fmt xs)
      else if c = CHR ''%'' \<and> d = CHR ''%'' then c # render_s fmt args
      else c # render_s (d # fmt) args)"

fun used_s :: "string \<Rightarrow> nat" where
  "used_s [] = 0"
| "used_s [c] = 0"
| "used_s (c # d # fmt) =
     (if c = CHR ''%'' \<and> d = CHR ''s'' then Suc (used_s fmt)
      else if c = CHR ''%'' \<and> d = CHR ''%'' then used_s fmt
      else used_s (d # fmt))"

text \<open>The state of a caller that holds the arguments \<open>args\<close> and no heap block.\<close>

definition start :: "'a list \<Rightarrow> 'a state" where
  "start args = \<lparr>heap = [], nreq = 0, va = (\<lambda>x. None)(Vargs := Some args), trace = []\<rparr>"

section \<open>Properties\<close>

subsection \<open>Machine arithmetic\<close>

lemma sint_range: "- 2147483648 \<le> sint (n::cint) \<and> sint n < 2147483648"
  using sint_ge [of n] sint_lt [of n] by simp

lemma signed_take_bit_31: "signed_take_bit 31 (k::int) = (k + 2147483648) mod 4294967296 - 2147483648"
  by (simp add: signed_take_bit_eq_take_bit_shift take_bit_eq_mod)

lemma sint_succ: "sint (n::cint) < 2147483647 \<Longrightarrow> sint (n + 1) = sint n + 1"
  using sint_range [of n] by (simp add: sint_word_ariths signed_take_bit_31)

lemma sint_succ_max: "sint (n::cint) = 2147483647 \<Longrightarrow> sint (n + 1) = - 2147483648"
  by (simp add: sint_word_ariths signed_take_bit_31)

lemma sint_double: "0 < sint (s::cint) \<Longrightarrow> sint s < 1073741824 \<Longrightarrow> sint (s * 2) = 2 * sint s"
  by (simp add: sint_word_ariths signed_take_bit_31)

lemma sint_double_neg: "1073741824 \<le> sint (s::cint) \<Longrightarrow> sint (s * 2) < 0"
proof -
  assume lo: "1073741824 \<le> sint s"
  define x where "x = sint s"
  have hi: "x < 2147483648" unfolding x_def using sint_range [of s] by simp
  have "(2 * x + 2147483648) mod 4294967296 = (2 * x + 2147483648 - 4294967296) mod 4294967296"
    by (simp only: minus_mod_self2)
  also have "\<dots> = 2 * x + 2147483648 - 4294967296"
    using lo hi unfolding x_def by (intro mod_pos_pos_trivial) simp_all
  finally have "(2 * x + 2147483648) mod 4294967296 - 2147483648 < 0" using hi by simp
  then show ?thesis by (simp add: sint_word_ariths signed_take_bit_31 x_def mult.commute)
qed

lemma size_t_neg: "sint i < 0 \<Longrightarrow> PTRDIFF_MAX < size_t_of_int i"
proof -
  assume neg: "sint i < 0"
  define x where "x = sint i"
  have lo: "- 2147483648 \<le> x" unfolding x_def using sint_range [of i] by simp
  have "x mod 18446744073709551616 = (x + 18446744073709551616) mod 18446744073709551616"
    by (simp only: mod_add_self2)
  also have "\<dots> = x + 18446744073709551616"
    using lo neg unfolding x_def by (intro mod_pos_pos_trivial) simp_all
  finally show ?thesis using lo by (simp add: size_t_of_int_def PTRDIFF_MAX_def x_def)
qed

lemma size_t_pos: "0 \<le> sint i \<Longrightarrow> size_t_of_int i = nat (sint i)"
  using sint_range [of i] by (simp add: size_t_of_int_def)

text \<open>
  A retry from a positive size either asks for more than \<open>PTRDIFF_MAX\<close> bytes (the new
  size has wrapped around to a negative \<^verbatim>\<open>int\<close>) or strictly increases the size.
\<close>

lemma grow_gt:
  assumes pos: "0 < sint sz" and retry: "\<not> (- 1 <s n \<and> n <s sz)" and nonneg: "0 \<le> sint (grow sz n)"
  shows "sint sz < sint (grow sz n)"
proof (cases "- 1 <s n")
  case True
  from True retry have le: "sint sz \<le> sint n" by (simp add: word_sless_alt)
  show ?thesis
  proof (cases "sint n < 2147483647")
    case True
    then show ?thesis using le \<open>- 1 <s n\<close> by (simp add: grow_def sint_succ)
  next
    case False
    with sint_range [of n] have "sint n = 2147483647" by simp
    then have "sint (grow sz n) = - 2147483648"
      using \<open>- 1 <s n\<close> by (simp add: grow_def sint_succ_max)
    with nonneg show ?thesis by simp
  qed
next
  case False
  show ?thesis
  proof (cases "sint sz < 1073741824")
    case True
    then show ?thesis using pos False by (simp add: grow_def sint_double)
  next
    case big: False
    then have "sint (sz * 2) < 0" by (simp add: sint_double_neg)
    with nonneg False show ?thesis by (simp add: grow_def)
  qed
qed

text \<open>From a positive size the growth policy never yields the size zero.\<close>

lemma grow_nonzero:
  assumes pos: "0 < sint sz"
  shows "grow sz n \<noteq> 0"
proof (cases "- 1 <s n")
  case True
  show ?thesis
  proof
    assume "grow sz n = 0"
    with True have "n + 1 = 0" by (simp add: grow_def)
    then have "n = - 1" by (simp only: eq_neg_iff_add_eq_0)
    with True show False by (simp add: word_sless_alt)
  qed
next
  case False
  show ?thesis
  proof (cases "sint sz < 1073741824")
    case True
    with pos have "sint (sz * 2) = 2 * sint sz" by (simp add: sint_double)
    with pos have "sint (sz * 2) \<noteq> sint (0 :: cint)" by simp
    then have "sz * 2 \<noteq> 0" by auto
    with False show ?thesis by (simp add: grow_def)
  next
    case big: False
    then have "sint (sz * 2) < sint (0 :: cint)" by (simp add: sint_double_neg)
    then have "sz * 2 \<noteq> 0" by auto
    with False show ?thesis by (simp add: grow_def)
  qed
qed

subsection \<open>The loop and its first iterations\<close>

lemma loop_run:
  "loop ok vs fmt c = (case run ok vs fmt k c of Inl r \<Rightarrow> Some r | Inr c' \<Rightarrow> loop ok vs fmt c')"
proof (induction k arbitrary: c)
  case 0
  show ?case by simp
next
  case (Suc k)
  show ?case
  proof (cases "body ok vs fmt c")
    case (Inl r)
    then show ?thesis by (simp add: loop.simps [of ok vs fmt c])
  next
    case (Inr c')
    then show ?thesis using Suc [of c'] by (simp add: loop.simps [of ok vs fmt c])
  qed
qed

lemma loop_returns_run:
  assumes "loop ok vs fmt c = Some r"
  shows "\<exists>k. run ok vs fmt (Suc k) c = Inl r"
proof (rule loop.raw_induct [where P = "\<lambda>ok vs fmt c r. \<exists>k. run ok vs fmt (Suc k) c = Inl r", OF _ assms])
  fix f :: "allocator \<Rightarrow> 'a formatter \<Rightarrow> string \<Rightarrow> 'a config \<Rightarrow> 'a result option"
  fix ok vs fmt c r
  assume IH: "\<And>ok vs fmt c r. f ok vs fmt c = Some r \<Longrightarrow> \<exists>k. run ok vs fmt (Suc k) c = Inl r"
  assume step: "(case body ok vs fmt c of Inl r \<Rightarrow> Some r | Inr c' \<Rightarrow> f ok vs fmt c') = Some r"
  show "\<exists>k. run ok vs fmt (Suc k) c = Inl r"
  proof (cases "body ok vs fmt c")
    case (Inl r')
    with step have "run ok vs fmt (Suc 0) c = Inl r" by simp
    then show ?thesis by blast
  next
    case (Inr c')
    with step have "f ok vs fmt c' = Some r" by simp
    then obtain k where "run ok vs fmt (Suc k) c' = Inl r" using IH by blast
    with Inr have "run ok vs fmt (Suc (Suc k)) c = Inl r" by simp
    then show ?thesis by blast
  qed
qed

subsection \<open>The library calls on a live buffer\<close>

lemma top_ge: "(a, b) \<in> set h \<Longrightarrow> a \<le> top h"
  by (induction h) auto

lemma fresh_notin: "fresh h \<notin> fst ` set h"
  using top_ge [of "fresh h" _ h] by (auto simp: fresh_def)

lemma release_absent: "a \<notin> fst ` set h \<Longrightarrow> release a h = h"
  by (induction h) auto

lemma malloc_eq:
  "malloc ok n st =
    (if ok (nreq st) n
     then (Ptr (fresh (heap st)),
       st\<lparr>heap := (fresh (heap st), \<lparr>cap = n, data = []\<rparr>) # heap st,
          nreq := Suc (nreq st),
          trace := trace st @ [Malloc n (Ptr (fresh (heap st)))]\<rparr>)
     else (NULL, st\<lparr>nreq := Suc (nreq st), trace := trace st @ [Malloc n NULL]\<rparr>))"
  by (simp add: malloc_def log_event_def Let_def)

lemma attempt_live:
  assumes "heap st = (a, b) # h0" and "va st Vargs = Some args"
  shows "attempt vs fmt (Ptr a) sz st =
    (let r = vs (size_t_of_int sz) fmt args
     in if length (written r) \<le> cap b
        then Inr (ret r,
          st\<lparr>heap := (a, b\<lparr>data := written r @ drop (length (written r)) (data b)\<rparr>) # h0,
             va := (va st)(Vargs_copy := None),
             trace := trace st @ [Va_copy Vargs_copy Vargs,
               Vsnprintf Vargs_copy (Ptr a) (size_t_of_int sz) (ret r), Va_end Vargs_copy]\<rparr>)
        else Inl Buffer_overflow)"
  using assms
  by (simp add: attempt_def va_copy_def vsnprintf_def va_end_def log_event_def Let_def)

lemma realloc_live:
  assumes "heap st = (a, b) # h0" and "a \<notin> fst ` set h0"
  shows "realloc ok (Ptr a) n st =
    (if ok (nreq st) n
     then Inr (Ptr (fresh (heap st)),
       st\<lparr>heap := (fresh (heap st), \<lparr>cap = n, data = take n (data b)\<rparr>) # h0,
          nreq := Suc (nreq st),
          trace := trace st @ [Realloc a n (Ptr (fresh (heap st)))]\<rparr>)
     else Inr (NULL, st\<lparr>nreq := Suc (nreq st), trace := trace st @ [Realloc a n NULL]\<rparr>))"
  using assms
  by (simp add: realloc_def log_event_def Let_def release_absent)

text \<open>
  One iteration from a configuration whose buffer is the newest block of the heap and
  whose \<open>Vargs\<close> is live, written out.
\<close>

lemma body_live:
  assumes "heap st = (a, b) # h0" and "a \<notin> fst ` set h0" and "va st Vargs = Some args"
  shows "body ok vs fmt (Ptr a, sz, st) =
    (let r = vs (size_t_of_int sz) fmt args;
         n = ret r;
         b1 = b\<lparr>data := written r @ drop (length (written r)) (data b)\<rparr>;
         t1 = trace st @ [Va_copy Vargs_copy Vargs,
                Vsnprintf Vargs_copy (Ptr a) (size_t_of_int sz) n, Va_end Vargs_copy];
         st1 = st\<lparr>heap := (a, b1) # h0, va := (va st)(Vargs_copy := None), trace := t1\<rparr>;
         m = size_t_of_int (grow sz n);
         a' = fresh ((a, b1) # h0)
     in if cap b < length (written r) then Inl (Inl Buffer_overflow)
        else if - 1 <s n \<and> n <s sz then Inl (Inr (Ptr a, st1))
        else if ok (nreq st) m
        then Inr (Ptr a', grow sz n,
               st1\<lparr>heap := (a', \<lparr>cap = m, data = take m (data b1)\<rparr>) # h0,
                   nreq := Suc (nreq st), trace := t1 @ [Realloc a m (Ptr a')]\<rparr>)
        else Inl (Inr (NULL,
               st1\<lparr>heap := h0, nreq := Suc (nreq st), trace := t1 @ [Realloc a m NULL, Free a]\<rparr>)))"
proof -
  let ?r = "vs (size_t_of_int sz) fmt args"
  let ?b1 = "b\<lparr>data := written ?r @ drop (length (written ?r)) (data b)\<rparr>"
  let ?st1 = "st\<lparr>heap := (a, ?b1) # h0, va := (va st)(Vargs_copy := None),
     trace := trace st @ [Va_copy Vargs_copy Vargs,
                Vsnprintf Vargs_copy (Ptr a) (size_t_of_int sz) (ret ?r), Va_end Vargs_copy]\<rparr>"
  have h1: "heap ?st1 = (a, ?b1) # h0" by simp
  note rl = realloc_live [OF h1 assms(2), of ok]
  show ?thesis
  proof (cases "length (written ?r) \<le> cap b")
    case False
    then show ?thesis
      by (simp add: body_def attempt_live [OF assms(1,3)] Let_def)
  next
    case True
    show ?thesis
    proof (cases "ok (nreq st) (size_t_of_int (grow sz (ret ?r)))")
      case ok: True
      with True show ?thesis
        by (simp add: body_def attempt_live [OF assms(1,3)] Let_def rl)
    next
      case no: False
      from True no show ?thesis
        using assms(2)
        by (simp add: body_def attempt_live [OF assms(1,3)] Let_def rl free_def log_event_def
            release_absent)
    qed
  qed
qed

lemma body_cases:
  fixes vs :: "'a formatter" and st :: "'a state" and sz fmt args a b h0
  defines "r \<equiv> vs (size_t_of_int sz) fmt args"
  defines "d \<equiv> written r @ drop (length (written r)) (data b)"
  defines "m \<equiv> size_t_of_int (grow sz (ret r))"
  assumes lv: "live args h0 a b sz st"
  obtains
    (overflow) "size_t_of_int sz < length (written r)"
      and "body ok vs fmt (Ptr a, sz, st) = Inl (Inl Buffer_overflow)"
  | (success) st' where "length (written r) \<le> size_t_of_int sz"
      and "- 1 <s ret r" and "ret r <s sz"
      and "body ok vs fmt (Ptr a, sz, st) = Inl (Inr (Ptr a, st'))"
      and "heap st' = (a, b\<lparr>data := d\<rparr>) # h0"
      and "va st' = (va st)(Vargs_copy := None)"
      and "trace st' = trace st @ attempt_events a sz (ret r)"
  | (refused) st' where "length (written r) \<le> size_t_of_int sz"
      and "\<not> (- 1 <s ret r \<and> ret r <s sz)" and "\<not> ok (nreq st) m"
      and "body ok vs fmt (Ptr a, sz, st) = Inl (Inr (NULL, st'))"
      and "heap st' = h0"
      and "va st' = (va st)(Vargs_copy := None)"
      and "trace st' = trace st @ attempt_events a sz (ret r) @ [Realloc a m NULL, Free a]"
  | (grown) a' st' where "length (written r) \<le> size_t_of_int sz"
      and "\<not> (- 1 <s ret r \<and> ret r <s sz)" and "ok (nreq st) m"
      and "body ok vs fmt (Ptr a, sz, st) = Inr (Ptr a', grow sz (ret r), st')"
      and "live args h0 a' \<lparr>cap = m, data = take m d\<rparr> (grow sz (ret r)) st'"
      and "va st' = (va st)(Vargs_copy := None)"
      and "trace st' = trace st @ attempt_events a sz (ret r) @ [Realloc a m (Ptr a')]"
proof -
  from lv have h: "heap st = (a, b) # h0" and nin: "a \<notin> fst ` set h0"
    and c: "cap b = size_t_of_int sz" and v: "va st Vargs = Some args"
    by (simp_all add: live_def)
  note bl = body_live [OF h nin v, of ok vs fmt sz, unfolded Let_def,
      folded r_def, folded d_def m_def]
  have nin': "fresh ((a, b\<lparr>data := d\<rparr>) # h0) \<notin> fst ` set h0"
    using fresh_notin [of "(a, b\<lparr>data := d\<rparr>) # h0"] by simp
  let ?t1 = "trace st @ attempt_events a sz (ret r)"
  let ?st1 = "st\<lparr>heap := (a, b\<lparr>data := d\<rparr>) # h0, va := (va st)(Vargs_copy := None),
      trace := ?t1\<rparr>"
  let ?a' = "fresh ((a, b\<lparr>data := d\<rparr>) # h0)"
  show ?thesis
  proof (cases "cap b < length (written r)")
    case True
    then show ?thesis using bl c overflow by simp
  next
    case fits: False
    show ?thesis
    proof (cases "- 1 <s ret r \<and> ret r <s sz")
      case True
      with bl fits have eq: "body ok vs fmt (Ptr a, sz, st) = Inl (Inr (Ptr a, ?st1))"
        by (simp add: attempt_events_def)
      show ?thesis using True c fits
        by (intro success [rotated 3, OF eq]) simp_all
    next
      case retry: False
      show ?thesis
      proof (cases "ok (nreq st) m")
        case True
        with bl fits retry
        have eq: "body ok vs fmt (Ptr a, sz, st) = Inr (Ptr ?a', grow sz (ret r),
            ?st1\<lparr>heap := (?a', \<lparr>cap = m, data = take m d\<rparr>) # h0, nreq := Suc (nreq st),
              trace := ?t1 @ [Realloc a m (Ptr ?a')]\<rparr>)"
          by (simp add: attempt_events_def)
        show ?thesis using True c fits retry nin' v
          by (intro grown [rotated 3, OF eq]) (simp_all add: live_def m_def)
      next
        case False
        with bl fits retry
        have eq: "body ok vs fmt (Ptr a, sz, st) = Inl (Inr (NULL,
            ?st1\<lparr>heap := h0, nreq := Suc (nreq st), trace := ?t1 @ [Realloc a m NULL, Free a]\<rparr>))"
          by (simp add: attempt_events_def)
        show ?thesis using False c fits retry
          by (intro refused [rotated 3, OF eq]) simp_all
      qed
    qed
  qed
qed

lemma live_malloc:
  assumes "malloc ok (size_t_of_int sz) st = (Ptr a, st1)" and "va st Vargs = Some args"
  shows "live args (heap st) a \<lparr>cap = size_t_of_int sz, data = []\<rparr> sz st1"
    and "trace st1 = trace st @ [Malloc (size_t_of_int sz) (Ptr a)]"
    and "va st1 = va st"
  using assms fresh_notin [of "heap st"]
  by (auto simp: malloc_eq live_def split: if_splits)

lemma size_t_256: "size_t_of_int 256 = 256"
  by (simp add: size_t_of_int_def)

lemma first_attempt:
  fixes vs :: "'a formatter" and st :: "'a state" and fmt args
  defines "r \<equiv> vs 256 fmt args"
  defines "a \<equiv> fresh (heap st)"
  assumes ok: "ok (nreq st) 256" and v: "va st Vargs = Some args"
    and fits: "length (written r) \<le> 256" and n: "- 1 <s ret r" "ret r <s 256"
  shows "log_to_string ok vs fmt st =
    Some (Inr (Ptr a,
      st\<lparr>heap := (a, \<lparr>cap = 256, data = written r\<rparr>) # heap st,
         nreq := Suc (nreq st),
         va := (va st)(Vargs_copy := None),
         trace := trace st @ Malloc 256 (Ptr a) # attempt_events a 256 (ret r)\<rparr>))"
proof -
  let ?st1 = "st\<lparr>heap := (a, \<lparr>cap = 256, data = []\<rparr>) # heap st, nreq := Suc (nreq st),
     trace := trace st @ [Malloc 256 (Ptr a)]\<rparr>"
  have m: "malloc ok (size_t_of_int 256) st = (Ptr a, ?st1)"
    using ok by (simp add: malloc_eq size_t_256 a_def)
  have h: "heap ?st1 = (a, \<lparr>cap = 256, data = []\<rparr>) # heap st" by simp
  have nin: "a \<notin> fst ` set (heap st)" unfolding a_def by (rule fresh_notin)
  have v1: "va ?st1 Vargs = Some args" using v by simp
  have "body ok vs fmt (Ptr a, 256, ?st1) = Inl (Inr (Ptr a,
      st\<lparr>heap := (a, \<lparr>cap = 256, data = written r\<rparr>) # heap st,
         nreq := Suc (nreq st),
         va := (va st)(Vargs_copy := None),
         trace := trace st @ Malloc 256 (Ptr a) # attempt_events a 256 (ret r)\<rparr>))"
    using fits n
    by (simp add: body_live [OF h nin v1] Let_def size_t_256 attempt_events_def flip: r_def)
  then show ?thesis
    using m by (simp add: log_to_string_def loop.simps [of ok vs fmt "(Ptr a, 256, ?st1)"])
qed

lemma sint_of_nat: "l \<le> 2147483647 \<Longrightarrow> sint (word_of_nat l :: cint) = int l"
  by (simp add: signed_of_nat signed_take_bit_int_eq_self)

lemma c99_sound: "sound render (c99_vsnprintf render used)"
  by (auto simp: sound_def c99_vsnprintf_def Let_def sint_of_nat split: if_splits)

lemma c99_within: "within (c99_vsnprintf render used)"
  by (auto simp: within_def c99_vsnprintf_def Let_def)

lemma legacy_sound: "sound render (legacy_vsnprintf render used)"
  by (auto simp: sound_def legacy_vsnprintf_def Let_def sint_of_nat split: if_splits)

lemma legacy_within: "within (legacy_vsnprintf render used)"
  by (auto simp: within_def legacy_vsnprintf_def Let_def)

lemma second_attempt:
  fixes vs :: "'a formatter" and st :: "'a state" and fmt args
  defines "r1 \<equiv> vs 256 fmt args"
  defines "a1 \<equiv> fresh (heap st)"
  defines "sz2 \<equiv> grow 256 (ret r1)"
  defines "m \<equiv> size_t_of_int sz2"
  defines "r2 \<equiv> vs m fmt args"
  defines "a2 \<equiv> Suc a1"
  assumes ok1: "ok (nreq st) 256" and v: "va st Vargs = Some args"
    and fits1: "length (written r1) \<le> 256" and retry: "\<not> (- 1 <s ret r1 \<and> ret r1 <s 256)"
    and ok2: "ok (Suc (nreq st)) m"
    and fits2: "length (written r2) \<le> m" and fin: "- 1 <s ret r2" "ret r2 <s sz2"
  shows "log_to_string ok vs fmt st =
    Some (Inr (Ptr a2,
      st\<lparr>heap := (a2, \<lparr>cap = m,
             data = written r2 @ drop (length (written r2)) (take m (written r1))\<rparr>) # heap st,
         nreq := Suc (Suc (nreq st)),
         va := (va st)(Vargs_copy := None),
         trace := trace st @ Malloc 256 (Ptr a1) # attempt_events a1 256 (ret r1) @
           Realloc a1 m (Ptr a2) # attempt_events a2 sz2 (ret r2)\<rparr>))"
proof -
  let ?st1 = "st\<lparr>heap := (a1, \<lparr>cap = 256, data = []\<rparr>) # heap st, nreq := Suc (nreq st),
     trace := trace st @ [Malloc 256 (Ptr a1)]\<rparr>"
  let ?st2 = "st\<lparr>heap := (a2, \<lparr>cap = m, data = take m (written r1)\<rparr>) # heap st,
     nreq := Suc (Suc (nreq st)), va := (va st)(Vargs_copy := None),
     trace := trace st @ Malloc 256 (Ptr a1) # attempt_events a1 256 (ret r1) @
       [Realloc a1 m (Ptr a2)]\<rparr>"
  have m: "malloc ok (size_t_of_int 256) st = (Ptr a1, ?st1)"
    using ok1 by (simp add: malloc_eq size_t_256 a1_def)
  have h1: "heap ?st1 = (a1, \<lparr>cap = 256, data = []\<rparr>) # heap st" by simp
  have nin1: "a1 \<notin> fst ` set (heap st)" unfolding a1_def by (rule fresh_notin)
  have v1: "va ?st1 Vargs = Some args" using v by simp
  have fr: "fresh ((a1, x) # heap st) = a2" for x
    by (simp add: fresh_def a2_def a1_def)
  have b1: "body ok vs fmt (Ptr a1, 256, ?st1) = Inr (Ptr a2, sz2, ?st2)"
    using fits1 retry ok2 body_live [OF h1 nin1 v1, of ok vs fmt 256]
    by (simp add: Let_def size_t_256 attempt_events_def fr flip: r1_def sz2_def m_def)
  have h2: "heap ?st2 = (a2, \<lparr>cap = m, data = take m (written r1)\<rparr>) # heap st" by simp
  have nin2: "a2 \<notin> fst ` set (heap st)"
    using fresh_notin [of "(a1, \<lparr>cap = 256, data = []\<rparr>) # heap st"] by (simp add: fr)
  have v2: "va ?st2 Vargs = Some args" using v by simp
  have b2: "body ok vs fmt (Ptr a2, sz2, ?st2) = Inl (Inr (Ptr a2,
      st\<lparr>heap := (a2, \<lparr>cap = m,
             data = written r2 @ drop (length (written r2)) (take m (written r1))\<rparr>) # heap st,
         nreq := Suc (Suc (nreq st)),
         va := (va st)(Vargs_copy := None),
         trace := trace st @ Malloc 256 (Ptr a1) # attempt_events a1 256 (ret r1) @
           Realloc a1 m (Ptr a2) # attempt_events a2 sz2 (ret r2)\<rparr>))"
    using fits2 fin body_live [OF h2 nin2 v2, of ok vs fmt sz2]
    by (simp add: Let_def attempt_events_def flip: m_def r2_def)
  show ?thesis
    using m b1 b2
    by (simp add: log_to_string_def loop.simps [of ok vs fmt "(Ptr a1, 256, ?st1)"]
        loop.simps [of ok vs fmt "(Ptr a2, sz2, ?st2)"])
qed

subsection \<open>Termination\<close>

lemma realloc_granted:
  "realloc ok p n st = Inr (p', st') \<Longrightarrow> p' \<noteq> NULL \<Longrightarrow> ok (nreq st) n"
  by (auto simp: realloc_def malloc_def Let_def split: ptr.splits option.splits if_splits)

lemma body_next:
  assumes "body ok vs fmt (buffer, sz, st) = Inr (buffer', sz', st')"
  shows "\<exists>n i. \<not> (- 1 <s n \<and> n <s sz) \<and> sz' = grow sz n \<and> ok i (size_t_of_int sz')"
  using assms
  by (auto simp: body_def Let_def split: sum.splits prod.splits if_splits dest: realloc_granted)

lemma body_next_gt:
  assumes "bounded ok" and "0 < sint sz"
    and "body ok vs fmt (buffer, sz, st) = Inr (buffer', sz', st')"
  shows "sint sz < sint sz'"
proof -
  from body_next [OF assms(3)] obtain n i
    where retry: "\<not> (- 1 <s n \<and> n <s sz)" and sz': "sz' = grow sz n"
      and ok: "ok i (size_t_of_int sz')"
    by blast
  from ok assms(1) have "\<not> PTRDIFF_MAX < size_t_of_int sz'" by (auto simp: bounded_def)
  then have "0 \<le> sint sz'" using size_t_neg [of sz'] by fastforce
  then show ?thesis using grow_gt [OF assms(2) retry] sz' by simp
qed

lemma loop_terminates:
  assumes "bounded ok" and "0 < sint sz"
  shows "\<exists>r. loop ok vs fmt (buffer, sz, st) = Some r"
  using assms(2)
proof (induction "nat (2147483648 - sint sz)" arbitrary: buffer sz st rule: less_induct)
  case less
  show ?case
  proof (cases "body ok vs fmt (buffer, sz, st)")
    case (Inl r)
    then show ?thesis by (simp add: loop.simps [of ok vs fmt "(buffer, sz, st)"])
  next
    case (Inr c')
    obtain buffer' sz' st' where c': "c' = (buffer', sz', st')" by (cases c') auto
    from Inr c' have gt: "sint sz < sint sz'"
      using body_next_gt [OF assms(1) less.prems] by simp
    moreover have "sint sz' < 2147483648" using sint_range [of sz'] by simp
    ultimately have "nat (2147483648 - sint sz') < nat (2147483648 - sint sz)" by simp
    moreover have "0 < sint sz'" using gt less.prems by simp
    ultimately obtain r where "loop ok vs fmt (buffer', sz', st') = Some r"
      using less.hyps by blast
    with Inr c' show ?thesis by (simp add: loop.simps [of ok vs fmt "(buffer, sz, st)"])
  qed
qed


lemma run_no_fault:
  assumes "within vs"
  shows "live args h0 a b sz st \<Longrightarrow> run ok vs fmt k (Ptr a, sz, st) = Inl r \<Longrightarrow>
    \<exists>p st'. r = Inr (p, st')"
proof (induction k arbitrary: a b sz st)
  case 0
  then show ?case by simp
next
  case (Suc k)
  from Suc.prems(1) show ?case
  proof (cases rule: body_cases [where ok = ok and vs = vs and fmt = fmt])
    case overflow
    with assms show ?thesis by (auto simp: within_def not_less [symmetric] simp del: not_less)
  next
    case (success st1)
    with Suc.prems(2) show ?thesis by auto
  next
    case (refused st1)
    with Suc.prems(2) show ?thesis by auto
  next
    case (grown a1 st1)
    with Suc.prems(2) Suc.IH show ?thesis by auto
  qed
qed

text \<open>
  C6. On a platform whose allocator refuses requests of more than \<open>PTRDIFF_MAX\<close> bytes,
  \<^verbatim>\<open>log_to_string\<close> terminates for every formatting facility (also one that reports a
  negative length on every attempt), every format string, every argument list and every
  state: every retry that is granted makes \<^verbatim>\<open>size\<close> strictly larger, and once \<^verbatim>\<open>size\<close>
  has wrapped around to a negative \<^verbatim>\<open>int\<close> the request is refused. When the
  facility never writes beyond the size it was given and the caller's argument list is live,
  the call ends by returning a pointer (a buffer or null), never in a fault of the library.
\<close>

theorem format_terminates:
  assumes "bounded ok"
  shows "(\<exists>r. log_to_string ok vs fmt st = Some r) \<and>
    (within vs \<and> va st Vargs \<noteq> None \<longrightarrow> (\<exists>p st'. log_to_string ok vs fmt st = Some (Inr (p, st'))))"
proof (cases "malloc ok (size_t_of_int 256) st")
  case (Pair buffer st1)
  show ?thesis
  proof (cases buffer)
    case NULL
    with Pair show ?thesis by (simp add: log_to_string_def)
  next
    case (Ptr a)
    have "0 < sint (256 :: cint)" by simp
    from loop_terminates [OF assms this, of vs fmt buffer st1]
    obtain r where r: "loop ok vs fmt (Ptr a, 256, st1) = Some r" using Ptr by auto
    have eq: "log_to_string ok vs fmt st = Some r"
      using Pair Ptr r by (simp add: log_to_string_def)
    have "\<exists>p st'. r = Inr (p, st')" if w: "within vs" and v: "va st Vargs \<noteq> None"
    proof -
      from v obtain args where "va st Vargs = Some args" by auto
      with Pair Ptr have "live args (heap st) a \<lparr>cap = size_t_of_int 256, data = []\<rparr> 256 st1"
        by (intro live_malloc(1)) simp_all
      moreover from r obtain k where "run ok vs fmt (Suc k) (Ptr a, 256, st1) = Inl r"
        using loop_returns_run by blast
      ultimately show ?thesis using run_no_fault [OF w] by blast
    qed
    with eq show ?thesis by auto
  qed
qed

theorem format_terminates_witness:
  "bounded (\<lambda>i n. n \<le> 65536) \<and>
   within (failing_vsnprintf :: string formatter) \<and>
   va (start [''hi'']) Vargs \<noteq> None \<and>
   (\<exists>r. log_to_string (\<lambda>i n. n \<le> 65536) failing_vsnprintf ''%s'' (start [''hi'']) = Some r) \<and>
   (\<exists>p st'. log_to_string (\<lambda>i n. n \<le> 65536) failing_vsnprintf ''%s'' (start [''hi'']) =
      Some (Inr (p, st')))"
proof -
  have b: "bounded (\<lambda>i n. n \<le> 65536)" by (simp add: bounded_def PTRDIFF_MAX_def)
  have w: "within (failing_vsnprintf :: string formatter)"
    by (simp add: within_def failing_vsnprintf_def)
  have v: "va (start [''hi'']) Vargs \<noteq> None" by (simp add: start_def)
  from format_terminates [OF b, of failing_vsnprintf "''%s''" "start [''hi'']"] b w v
  show ?thesis by simp
qed

subsection \<open>What a returned buffer holds\<close>

lemma run_complete:
  assumes "sound render vs"
  shows "live args h0 a b sz st \<Longrightarrow> run ok vs fmt k (Ptr a, sz, st) = Inl (Inr (Ptr a', st')) \<Longrightarrow>
    \<exists>b'. heap st' = (a', b') # h0 \<and>
      take (Suc (length (render fmt args))) (data b') = render fmt args @ [NUL] \<and>
      Suc (length (render fmt args)) \<le> cap b'"
proof (induction k arbitrary: a b sz st)
  case 0
  then show ?case by simp
next
  case (Suc k)
  from Suc.prems(1) show ?case
  proof (cases rule: body_cases [where ok = ok and vs = vs and fmt = fmt])
    case overflow
    with Suc.prems(2) show ?thesis by simp
  next
    case (success st1)
    let ?r = "vs (size_t_of_int sz) fmt args"
    from success(2,3) have n: "0 \<le> sint (ret ?r)" "sint (ret ?r) < sint sz"
      by (simp_all add: word_sless_alt)
    then have szt: "size_t_of_int sz = nat (sint sz)" by (simp add: size_t_pos)
    with n assms have len: "sint (ret ?r) = int (length (render fmt args))"
      and w: "written ?r = render fmt args @ [NUL]"
      by (auto simp: sound_def)
    from Suc.prems(1) have "cap b = size_t_of_int sz" by (simp add: live_def)
    with success Suc.prems(2) szt n len w show ?thesis by auto
  next
    case (refused st1)
    with Suc.prems(2) show ?thesis by simp
  next
    case (grown a1 st1)
    from grown(4) Suc.prems(2)
    have "run ok vs fmt k (Ptr a1, grow sz (ret (vs (size_t_of_int sz) fmt args)), st1) = Inl (Inr (Ptr a', st'))"
      by simp
    from Suc.IH [OF grown(5) this] show ?thesis .
  qed
qed


text \<open>
  C1. Whenever \<^verbatim>\<open>log_to_string\<close> returns a non-null buffer, the buffer starts with the complete
  formatted text of the format string and the argument list followed by the terminating
  null byte (so it is never a truncated prefix), and for a text of length \<open>L\<close> the
  capacity of the buffer is at least \<open>L + 1\<close>. The formatting facility is any one that keeps
  the contract \<open>sound\<close>.
\<close>

theorem returned_buffer_complete:
  assumes snd: "sound render vs" and v: "va st Vargs = Some args"
    and ret: "log_to_string ok vs fmt st = Some (Inr (Ptr a, st'))"
  shows "\<exists>b. map_of (heap st') a = Some b \<and>
    take (Suc (length (render fmt args))) (data b) = render fmt args @ [NUL] \<and>
    Suc (length (render fmt args)) \<le> cap b"
proof (cases "malloc ok (size_t_of_int 256) st")
  case (Pair buffer st1)
  show ?thesis
  proof (cases buffer)
    case NULL
    with Pair ret show ?thesis by (simp add: log_to_string_def)
  next
    case (Ptr a0)
    with Pair ret have "loop ok vs fmt (Ptr a0, 256, st1) = Some (Inr (Ptr a, st'))"
      by (simp add: log_to_string_def)
    then obtain k where "run ok vs fmt (Suc k) (Ptr a0, 256, st1) = Inl (Inr (Ptr a, st'))"
      using loop_returns_run by blast
    moreover from Pair Ptr v
    have "live args (heap st) a0 \<lparr>cap = size_t_of_int 256, data = []\<rparr> 256 st1"
      by (intro live_malloc(1)) simp_all
    ultimately obtain b where "heap st' = (a, b) # heap st"
      and "take (Suc (length (render fmt args))) (data b) = render fmt args @ [NUL]"
      and "Suc (length (render fmt args)) \<le> cap b"
      using run_complete [OF snd] by blast
    then show ?thesis by simp
  qed
qed

theorem returned_buffer_complete_witness:
  "sound render_s (c99_vsnprintf render_s used_s) \<and>
   va (start [replicate 300 (CHR ''x'')]) Vargs = Some [replicate 300 (CHR ''x'')] \<and>
   (\<exists>st'. log_to_string (\<lambda>i n. n \<le> 4096) (c99_vsnprintf render_s used_s) ''%s''
        (start [replicate 300 (CHR ''x'')]) = Some (Inr (Ptr 2, st')) \<and>
      heap st' = [(2, \<lparr>cap = 301, data = replicate 300 (CHR ''x'') @ [NUL]\<rparr>)] \<and>
      (\<exists>b. map_of (heap st') 2 = Some b \<and>
         take 301 (data b) = replicate 300 (CHR ''x'') @ [NUL] \<and> 301 \<le> cap b))"
proof -
  let ?vs = "c99_vsnprintf render_s used_s :: string formatter"
  let ?x = "[replicate 300 (CHR ''x'')]"
  let ?ok = "\<lambda>(i::nat) (n::nat). n \<le> 4096"
  have s: "sound render_s ?vs" by (rule c99_sound)
  have v: "va (start ?x) Vargs = Some ?x" by (simp add: start_def)
  have r: "ret (?vs n ''%s'' ?x) = 300" for n by (simp add: c99_vsnprintf_def)
  have w1: "written (?vs 256 ''%s'' ?x) = replicate 255 (CHR ''x'') @ [NUL]"
    by (simp add: c99_vsnprintf_def)
  have w2: "written (?vs 301 ''%s'' ?x) = replicate 300 (CHR ''x'') @ [NUL]"
    by (simp add: c99_vsnprintf_def)
  have g: "grow 256 300 = 301" by (simp add: grow_def word_sless_alt)
  have m: "size_t_of_int 301 = 301" by (simp add: size_t_of_int_def)
  have "\<exists>st'. log_to_string ?ok ?vs ''%s'' (start ?x) = Some (Inr (Ptr 2, st')) \<and>
      heap st' = [(2, \<lparr>cap = 301, data = replicate 300 (CHR ''x'') @ [NUL]\<rparr>)]"
    using second_attempt [where ok = ?ok and st = "start ?x" and vs = ?vs and fmt = "''%s''"
        and args = ?x]
    by (simp add: r w1 w2 g m start_def fresh_def word_sless_alt numeral_2_eq_2)
  then obtain st' where l: "log_to_string ?ok ?vs ''%s'' (start ?x) = Some (Inr (Ptr 2, st'))"
    and h: "heap st' = [(2, \<lparr>cap = 301, data = replicate 300 (CHR ''x'') @ [NUL]\<rparr>)]"
    by blast
  from returned_buffer_complete [OF s v l]
  have "\<exists>b. map_of (heap st') 2 = Some b \<and>
      take 301 (data b) = replicate 300 (CHR ''x'') @ [NUL] \<and> 301 \<le> cap b"
    by simp
  with s v l h show ?thesis by blast
qed

lemma since_append: "trace st' = trace st @ es \<Longrightarrow> since st st' = es"
  by (simp add: since_def)

text \<open>
  C2. The first buffer has capacity 256. When the first rendering attempt (at size 256)
  reports a length that is non-negative and less than 256, and the first allocation is
  granted, \<^verbatim>\<open>log_to_string\<close> leaves the loop after this one attempt and returns that buffer:
  its capacity is still 256 and it holds the complete formatted text and the terminator.
  The log of library calls since the call began is one \<^verbatim>\<open>malloc(256)\<close> and one attempt.
\<close>

theorem short_output_first_attempt:
  assumes snd: "sound render vs" and v: "va st Vargs = Some args" and ok: "ok (nreq st) 256"
    and n0: "0 \<le> sint (ret (vs 256 fmt args))" and n1: "sint (ret (vs 256 fmt args)) < 256"
  shows "\<exists>a st'. log_to_string ok vs fmt st = Some (Inr (Ptr a, st')) \<and>
    heap st' = (a, \<lparr>cap = 256, data = render fmt args @ [NUL]\<rparr>) # heap st \<and>
    since st st' = Malloc 256 (Ptr a) # attempt_events a 256 (ret (vs 256 fmt args)) \<and>
    caps (since st st') = [256]"
proof -
  let ?r = "vs 256 fmt args"
  from snd n0 n1 have len: "sint (ret ?r) = int (length (render fmt args))"
    and w: "written ?r = render fmt args @ [NUL]"
    by (auto simp: sound_def)
  from len n1 w have fits: "length (written ?r) \<le> 256" by simp
  from n0 n1 have n: "- 1 <s ret ?r" "ret ?r <s 256" by (simp_all add: word_sless_alt)
  note fa = first_attempt [where ok = ok and st = st and vs = vs and fmt = fmt and args = args,
      OF ok v fits n]
  show ?thesis
    by (rule exI [of _ "fresh (heap st)"], rule exI, rule conjI, rule fa)
      (simp add: w since_def attempt_events_def size_t_256)
qed

theorem short_output_first_attempt_witness:
  "sound render_s (c99_vsnprintf render_s used_s) \<and>
   va (start [''1'', ''2'']) Vargs = Some [''1'', ''2''] \<and>
   (0::nat) \<le> 4096 \<and>
   0 \<le> sint (ret (c99_vsnprintf render_s used_s 256 ''%s-%s'' [''1'', ''2''])) \<and>
   sint (ret (c99_vsnprintf render_s used_s 256 ''%s-%s'' [''1'', ''2''])) < 256 \<and>
   (\<exists>a st'. log_to_string (\<lambda>i n. n \<le> 4096) (c99_vsnprintf render_s used_s) ''%s-%s''
        (start [''1'', ''2'']) = Some (Inr (Ptr a, st')) \<and>
      heap st' = (a, \<lparr>cap = 256, data = ''1-2'' @ [NUL]\<rparr>) # heap (start [''1'', ''2'']) \<and>
      since (start [''1'', ''2'']) st' = Malloc 256 (Ptr a) # attempt_events a 256 3 \<and>
      caps (since (start [''1'', ''2'']) st') = [256])"
proof -
  let ?vs = "c99_vsnprintf render_s used_s :: string formatter"
  have s: "sound render_s ?vs" by (rule c99_sound)
  have v: "va (start [''1'', ''2'']) Vargs = Some [''1'', ''2'']" by (simp add: start_def)
  have ok: "(\<lambda>i n. n \<le> 4096) (nreq (start [''1'', ''2''])) (256::nat)" by simp
  have r: "ret (?vs 256 ''%s-%s'' [''1'', ''2'']) = 3" by (simp add: c99_vsnprintf_def)
  have n0: "0 \<le> sint (ret (?vs 256 ''%s-%s'' [''1'', ''2'']))"
    and n1: "sint (ret (?vs 256 ''%s-%s'' [''1'', ''2''])) < 256"
    by (simp_all add: r)
  from short_output_first_attempt [where ok = "\<lambda>i n. n \<le> 4096" and st = "start [''1'', ''2'']",
      OF s v ok n0 n1] s v n0 n1
  show ?thesis by (simp add: r)
qed

subsection \<open>The growth policy\<close>

lemma realloc_block:
  "realloc ok p m st = Inr (Ptr a', st') \<Longrightarrow> \<exists>b. map_of (heap st') a' = Some b \<and> cap b = m"
  by (auto simp: realloc_def malloc_def log_event_def Let_def
      split: ptr.splits option.splits if_splits)

text \<open>
  C3. In an iteration whose rendering attempt reports a non-negative length \<open>n\<close> that is
  not less than \<^verbatim>\<open>size\<close>, the size of the next iteration is exactly \<open>n + 1\<close> (as integers,
  without wrap-around), and this is the capacity of the buffer the next iteration renders
  into. For \<open>n = INT_MAX\<close> there is no next iteration: \<open>n + 1\<close> wraps around to a negative
  \<^verbatim>\<open>int\<close>, and an allocator that refuses requests above \<open>PTRDIFF_MAX\<close> refuses this one.
\<close>

theorem known_size_growth:
  assumes bnd: "bounded ok"
    and att: "attempt vs fmt buffer sz st = Inr (n, st1)"
    and n0: "0 \<le> sint n" and ge: "sint sz \<le> sint n"
    and nxt: "body ok vs fmt (buffer, sz, st) = Inr (buffer', sz', st')"
  shows "sint sz' = sint n + 1 \<and> size_t_of_int sz' = nat (sint n + 1) \<and>
    (\<exists>a b. buffer' = Ptr a \<and> map_of (heap st') a = Some b \<and> cap b = nat (sint n + 1))"
proof -
  from n0 have pos: "- 1 <s n" by (simp add: word_sless_alt)
  from ge have retry: "\<not> n <s sz" by (simp add: word_sless_alt)
  from pos have g: "grow sz n = n + 1" by (simp add: grow_def)
  from nxt att retry g have sz': "sz' = n + 1"
    and re: "realloc ok buffer (size_t_of_int (n + 1)) st1 = Inr (buffer', st')"
    and nn: "buffer' \<noteq> NULL"
    by (auto simp: body_def Let_def split: sum.splits prod.splits if_splits)
  from realloc_granted [OF re nn] bnd have "\<not> PTRDIFF_MAX < size_t_of_int (n + 1)"
    by (auto simp: bounded_def)
  then have nonneg: "0 \<le> sint (n + 1)" using size_t_neg [of "n + 1"] by fastforce
  have "sint n < 2147483647"
  proof (rule ccontr)
    assume "\<not> sint n < 2147483647"
    with sint_range [of n] have "sint n = 2147483647" by simp
    then have "sint (n + 1) = - 2147483648" by (rule sint_succ_max)
    with nonneg show False by simp
  qed
  then have s1: "sint (n + 1) = sint n + 1" by (rule sint_succ)
  with n0 have s2: "size_t_of_int (n + 1) = nat (sint n + 1)" by (simp add: size_t_pos)
  from nn obtain a where a: "buffer' = Ptr a" by (cases buffer') auto
  from realloc_block [OF re [unfolded a]] obtain b
    where "map_of (heap st') a = Some b" "cap b = size_t_of_int (n + 1)" by blast
  with a s1 s2 sz' show ?thesis by simp
qed


theorem known_size_growth_witness:
  "bounded (\<lambda>i n. n \<le> 4096) \<and>
   (\<exists>st1 buffer' sz' st'.
      attempt (c99_vsnprintf render_s used_s) ''%s'' (Ptr 1) 256
        \<lparr>heap = [(1, \<lparr>cap = 256, data = []\<rparr>)], nreq = 1,
         va = (\<lambda>x. None)(Vargs := Some [replicate 300 (CHR ''x'')]),
         trace = [Malloc 256 (Ptr 1)]\<rparr> = Inr (300, st1) \<and>
      0 \<le> sint (300 :: cint) \<and> sint (256 :: cint) \<le> sint (300 :: cint) \<and>
      body (\<lambda>i n. n \<le> 4096) (c99_vsnprintf render_s used_s) ''%s'' (Ptr 1, 256,
        \<lparr>heap = [(1, \<lparr>cap = 256, data = []\<rparr>)], nreq = 1,
         va = (\<lambda>x. None)(Vargs := Some [replicate 300 (CHR ''x'')]),
         trace = [Malloc 256 (Ptr 1)]\<rparr>) = Inr (buffer', sz', st') \<and>
      sint sz' = 301 \<and> size_t_of_int sz' = 301 \<and>
      (\<exists>a b. buffer' = Ptr a \<and> map_of (heap st') a = Some b \<and> cap b = 301))"
proof -
  let ?vs = "c99_vsnprintf render_s used_s :: string formatter"
  let ?args = "[replicate 300 (CHR ''x'')]"
  let ?st = "\<lparr>heap = [(1, \<lparr>cap = 256, data = []\<rparr>)], nreq = 1,
         va = (\<lambda>x. None)(Vargs := Some ?args),
         trace = [Malloc 256 (Ptr 1)]\<rparr> :: string state"
  let ?ok = "\<lambda>(i::nat) (n::nat). n \<le> 4096"
  have b: "bounded ?ok" by (simp add: bounded_def PTRDIFF_MAX_def)
  have h: "heap ?st = (1, \<lparr>cap = 256, data = []\<rparr>) # []" by simp
  have v: "va ?st Vargs = Some ?args" by simp
  have r: "ret (?vs 256 ''%s'' ?args) = 300" by (simp add: c99_vsnprintf_def)
  have w: "written (?vs 256 ''%s'' ?args) = replicate 255 (CHR ''x'') @ [NUL]"
    by (simp add: c99_vsnprintf_def)
  have "\<exists>st1. attempt ?vs ''%s'' (Ptr 1) 256 ?st = Inr (300, st1)"
    using attempt_live [OF h v, of ?vs "''%s''" 256] by (simp add: Let_def size_t_256 r w)
  then obtain st1 where att: "attempt ?vs ''%s'' (Ptr 1) 256 ?st = Inr (300, st1)" ..
  have g: "grow 256 300 = 301" by (simp add: grow_def word_sless_alt)
  have "\<exists>buffer' sz' st'. body ?ok ?vs ''%s'' (Ptr 1, 256, ?st) = Inr (buffer', sz', st')"
    using body_live [OF h _ v, of ?ok ?vs "''%s''" 256]
    by (simp add: Let_def size_t_256 r w g size_t_of_int_def)
  then obtain buffer' sz' st'
    where nxt: "body ?ok ?vs ''%s'' (Ptr 1, 256, ?st) = Inr (buffer', sz', st')" by blast
  have n0: "0 \<le> sint (300 :: cint)" and ge: "sint (256 :: cint) \<le> sint (300 :: cint)"
    by simp_all
  from known_size_growth [OF b att n0 ge nxt] b att n0 ge nxt
  show ?thesis by (intro conjI exI [of _ st1] exI [of _ buffer'] exI [of _ sz'] exI [of _ st']) simp_all
qed

lemma reports_append: "reports (xs @ ys) = reports xs @ reports ys"
  by (induction xs rule: reports.induct) simp_all

lemma caps_append: "caps (xs @ ys) = caps xs @ caps ys"
  by (induction xs rule: caps.induct) simp_all

lemma growths_append: "growths (xs @ ys) = growths xs @ growths ys"
  by (induction xs rule: growths.induct) simp_all

lemma attempt_trace:
  "attempt vs fmt buffer sz st = Inr (n, st1) \<Longrightarrow>
    \<exists>a. buffer = Ptr a \<and> trace st1 = trace st @ attempt_events a sz n"
  by (auto simp: attempt_def va_copy_def vsnprintf_def va_end_def log_event_def Let_def
      attempt_events_def split: option.splits ptr.splits if_splits sum.splits)

lemma realloc_trace:
  "realloc ok p m st = Inr (p', st') \<Longrightarrow>
    \<exists>e. trace st' = trace st @ [e] \<and> reports [e] = []"
  by (auto simp: realloc_def malloc_def log_event_def Let_def
      split: option.splits ptr.splits if_splits)

lemma body_next_trace:
  assumes "body ok vs fmt (buffer, sz, st) = Inr (buffer', sz', st')"
  shows "\<exists>n es. sz' = grow sz n \<and> trace st' = trace st @ es \<and> reports es = [n]"
proof -
  from assms obtain n st1 where att: "attempt vs fmt buffer sz st = Inr (n, st1)"
    and sz': "sz' = grow sz n"
    and re: "realloc ok buffer (size_t_of_int (grow sz n)) st1 = Inr (buffer', st')"
    by (auto simp: body_def Let_def split: sum.splits prod.splits if_splits)
  from attempt_trace [OF att] obtain a where t1: "trace st1 = trace st @ attempt_events a sz n"
    by blast
  from realloc_trace [OF re] obtain e where t2: "trace st' = trace st1 @ [e]" and e: "reports [e] = []"
    by blast
  have "reports (attempt_events a sz n @ [e]) = [n]"
    by (simp only: reports_append e) (simp add: attempt_events_def)
  with t1 t2 sz' show ?thesis by auto
qed

lemma run_doubles:
  "run ok vs fmt k (buffer, sz, st) = Inr (buffer', sz', st') \<Longrightarrow>
    \<exists>es. trace st' = trace st @ es \<and> length (reports es) = k \<and>
      ((\<forall>r\<in>set (reports es). r <s 0) \<longrightarrow> sz' = sz * 2 ^ k)"
proof (induction k arbitrary: buffer sz st)
  case 0
  then show ?case by simp
next
  case (Suc k)
  from Suc.prems obtain b1 s1 st1 where b: "body ok vs fmt (buffer, sz, st) = Inr (b1, s1, st1)"
    and r: "run ok vs fmt k (b1, s1, st1) = Inr (buffer', sz', st')"
    by (auto split: sum.splits)
  from body_next_trace [OF b] obtain n es1
    where s1: "s1 = grow sz n" and t1: "trace st1 = trace st @ es1" and r1: "reports es1 = [n]"
    by blast
  from Suc.IH [OF r] obtain es2
    where t2: "trace st' = trace st1 @ es2" and l2: "length (reports es2) = k"
      and d2: "(\<forall>r\<in>set (reports es2). r <s 0) \<longrightarrow> sz' = s1 * 2 ^ k"
    by blast
  have "n <s 0 \<Longrightarrow> grow sz n = sz * 2"
    by (auto simp: grow_def word_sless_alt)
  with s1 d2 have "(\<forall>r\<in>set (reports (es1 @ es2)). r <s 0) \<longrightarrow> sz' = sz * 2 ^ Suc k"
    by (simp add: reports_append r1 mult.assoc)
  moreover have "length (reports (es1 @ es2)) = Suc k" by (simp add: reports_append r1 l2)
  moreover have "trace st' = trace st @ es1 @ es2" by (simp add: t1 t2)
  ultimately show ?case by blast
qed

lemma failing_run:
  "live args h0 a b sz st \<Longrightarrow>
    \<exists>a' b' st' es. run (\<lambda>i n. True) failing_vsnprintf fmt k (Ptr a, sz, st) =
        Inr (Ptr a', sz * 2 ^ k, st') \<and>
      live args h0 a' b' (sz * 2 ^ k) st' \<and>
      trace st' = trace st @ es \<and> reports es = replicate k (- 1)"
proof (induction k arbitrary: a b sz st)
  case 0
  then show ?case by auto
next
  case (Suc k)
  have g: "grow sz (- 1) = sz * 2" by (simp add: grow_def word_sless_alt)
  from Suc.prems show ?case
  proof (cases rule: body_cases [where ok = "\<lambda>i n. True" and vs = failing_vsnprintf and fmt = fmt])
    case overflow
    then show ?thesis by (simp add: failing_vsnprintf_def)
  next
    case (success st1)
    then show ?thesis by (simp add: failing_vsnprintf_def word_sless_alt)
  next
    case (refused st1)
    then show ?thesis by simp
  next
    case (grown a1 st1)
    let ?m = "size_t_of_int (sz * 2)"
    from grown(4) have b: "body (\<lambda>i n. True) failing_vsnprintf fmt (Ptr a, sz, st) =
        Inr (Ptr a1, sz * 2, st1)"
      by (simp add: failing_vsnprintf_def g)
    from grown(5) obtain b1 where lv: "live args h0 a1 b1 (sz * 2) st1"
      by (auto simp: failing_vsnprintf_def g)
    from grown(7) have t1: "trace st1 = trace st @ attempt_events a sz (- 1) @ [Realloc a ?m (Ptr a1)]"
      by (simp add: failing_vsnprintf_def g)
    from Suc.IH [OF lv] obtain a' b' st' es
      where r: "run (\<lambda>i n. True) failing_vsnprintf fmt k (Ptr a1, sz * 2, st1) =
          Inr (Ptr a', sz * 2 * 2 ^ k, st')"
        and lv': "live args h0 a' b' (sz * 2 * 2 ^ k) st'"
        and t2: "trace st' = trace st1 @ es" and rp: "reports es = replicate k (- 1)"
      by blast
    have "reports (attempt_events a sz (- 1) @ [Realloc a ?m (Ptr a1)] @ es) = replicate (Suc k) (- 1)"
      by (simp add: reports_append rp attempt_events_def)
    moreover have "trace st' = trace st @ attempt_events a sz (- 1) @ [Realloc a ?m (Ptr a1)] @ es"
      by (simp add: t1 t2)
    ultimately show ?thesis using b r lv' by (auto simp: mult.assoc)
  qed
qed

lemma upt_Suc_map: "map f [0..<Suc k] = f 0 # map (\<lambda>i. f (Suc i)) [0..<k]"
proof -
  have "[0..<Suc k] = 0 # map Suc [0..<k]"
    by (simp only: map_Suc_upt upt_conv_Cons [of 0 "Suc k"])
  then show ?thesis by (simp only: list.map map_map comp_def)
qed

lemma size_t_unat: "0 \<le> sint (i::cint) \<Longrightarrow> size_t_of_int i = unat i"
proof -
  assume nn: "0 \<le> sint i"
  have "uint i = take_bit 32 (sint i)" using uint_sint [of i] by simp
  also have "\<dots> = sint i" using nn sint_range [of i] by (simp add: take_bit_int_eq_self)
  finally have "unat i = nat (sint i)" by (simp add: unat_eq_nat_uint)
  with nn show ?thesis by (simp add: size_t_pos)
qed

lemma realloc_log:
  "realloc ok (Ptr a) m st = Inr (p', st') \<Longrightarrow> trace st' = trace st @ [Realloc a m p']"
  by (auto simp: realloc_def log_event_def Let_def split: option.splits if_splits)

lemma body_next_capacity:
  assumes "body ok vs fmt (buffer, sz, st) = Inr (buffer', sz', st')"
  shows "\<exists>n es a' b'. sz' = grow sz n \<and> trace st' = trace st @ es \<and> reports es = [n] \<and>
    caps es = [size_t_of_int sz] \<and> growths es = [size_t_of_int sz'] \<and>
    buffer' = Ptr a' \<and> map_of (heap st') a' = Some b' \<and> cap b' = size_t_of_int sz'"
proof -
  from assms obtain n st1 where att: "attempt vs fmt buffer sz st = Inr (n, st1)"
    and sz': "sz' = grow sz n"
    and re: "realloc ok buffer (size_t_of_int sz') st1 = Inr (buffer', st')"
    and nn: "buffer' \<noteq> NULL"
    by (auto simp: body_def Let_def split: sum.splits prod.splits if_splits)
  from attempt_trace [OF att] obtain a where a: "buffer = Ptr a"
    and t1: "trace st1 = trace st @ attempt_events a sz n"
    by blast
  from nn obtain a' where a': "buffer' = Ptr a'" by (cases buffer') auto
  from realloc_log [OF re [unfolded a]]
  have t2: "trace st' = trace st1 @ [Realloc a (size_t_of_int sz') buffer']" .
  from realloc_block [OF re [unfolded a']] obtain b'
    where b': "map_of (heap st') a' = Some b'" "cap b' = size_t_of_int sz'"
    by blast
  let ?es = "attempt_events a sz n @ [Realloc a (size_t_of_int sz') buffer']"
  have "trace st' = trace st @ ?es" by (simp add: t1 t2)
  moreover have "reports ?es = [n]" "caps ?es = [size_t_of_int sz]"
    "growths ?es = [size_t_of_int sz']"
    by (simp_all add: attempt_events_def)
  ultimately show ?thesis using sz' a' b' by blast
qed

lemma run_capacities:
  "run ok vs fmt k (buffer, sz, st) = Inr (buffer', sz', st') \<Longrightarrow>
    \<exists>es. trace st' = trace st @ es \<and>
      ((\<forall>r\<in>set (reports es). r <s 0) \<longrightarrow>
         caps es = map (\<lambda>i. size_t_of_int (sz * 2 ^ i)) [0..<k] \<and>
         growths es = map (\<lambda>i. size_t_of_int (sz * 2 ^ Suc i)) [0..<k]) \<and>
      (0 < k \<longrightarrow> (\<exists>a' b'. buffer' = Ptr a' \<and> map_of (heap st') a' = Some b' \<and>
         cap b' = size_t_of_int sz'))"
proof (induction k arbitrary: buffer sz st)
  case 0
  then show ?case by simp
next
  case (Suc k)
  from Suc.prems obtain b1 s1 st1 where b: "body ok vs fmt (buffer, sz, st) = Inr (b1, s1, st1)"
    and r: "run ok vs fmt k (b1, s1, st1) = Inr (buffer', sz', st')"
    by (auto split: sum.splits)
  from body_next_capacity [OF b] obtain n es1 a1 blk
    where s1: "s1 = grow sz n" and t1: "trace st1 = trace st @ es1" and r1: "reports es1 = [n]"
      and c1: "caps es1 = [size_t_of_int sz]" and g1: "growths es1 = [size_t_of_int s1]"
      and blk: "b1 = Ptr a1" "map_of (heap st1) a1 = Some blk" "cap blk = size_t_of_int s1"
    by blast
  from Suc.IH [OF r] obtain es2
    where t2: "trace st' = trace st1 @ es2"
      and d2: "(\<forall>r\<in>set (reports es2). r <s 0) \<longrightarrow>
         caps es2 = map (\<lambda>i. size_t_of_int (s1 * 2 ^ i)) [0..<k] \<and>
         growths es2 = map (\<lambda>i. size_t_of_int (s1 * 2 ^ Suc i)) [0..<k]"
      and h2: "0 < k \<longrightarrow> (\<exists>a' b'. buffer' = Ptr a' \<and> map_of (heap st') a' = Some b' \<and>
         cap b' = size_t_of_int sz')"
    by blast
  have dbl: "n <s 0 \<Longrightarrow> s1 = sz * 2"
    using s1 by (auto simp: grow_def word_sless_alt)
  have "caps (es1 @ es2) = map (\<lambda>i. size_t_of_int (sz * 2 ^ i)) [0..<Suc k] \<and>
      growths (es1 @ es2) = map (\<lambda>i. size_t_of_int (sz * 2 ^ Suc i)) [0..<Suc k]"
    if neg: "\<forall>r\<in>set (reports (es1 @ es2)). r <s 0"
  proof -
    from neg have n: "n <s 0" and rest: "\<forall>r\<in>set (reports es2). r <s 0"
      by (simp_all add: reports_append r1)
    from dbl [OF n] have s: "s1 = sz * 2" .
    from d2 rest have c2: "caps es2 = map (\<lambda>i. size_t_of_int (s1 * 2 ^ i)) [0..<k]"
      and g2: "growths es2 = map (\<lambda>i. size_t_of_int (s1 * 2 ^ Suc i)) [0..<k]"
      by simp_all
    show ?thesis
      by (simp only: caps_append growths_append c1 g1 c2 g2 upt_Suc_map)
        (simp add: s mult.assoc)
  qed
  moreover have "trace st' = trace st @ es1 @ es2" by (simp add: t1 t2)
  moreover have "\<exists>a' b'. buffer' = Ptr a' \<and> map_of (heap st') a' = Some b' \<and>
         cap b' = size_t_of_int sz'"
  proof (cases k)
    case 0
    with r blk show ?thesis by auto
  next
    case (Suc j)
    with h2 show ?thesis by simp
  qed
  ultimately show ?case by blast
qed

text \<open>
  C4. In an iteration whose rendering attempt reports a negative length, the next size is
  twice the current one in 32-bit arithmetic, and it is the size asked of \<^verbatim>\<open>realloc\<close>, the
  capacity of the block the next iteration renders into and the size given to its
  \<^verbatim>\<open>vsnprintf\<close>. Hence when the first \<open>k\<close> iterations from size \<open>sz\<close> all report a negative
  length and all continue: the loop stands at size \<open>sz * 2 ^ k\<close> modulo \<open>2 ^ 32\<close>; the
  \<open>i\<close>-th attempt was given the size \<open>sz * 2 ^ i\<close> and the \<open>i\<close>-th \<^verbatim>\<open>realloc\<close> was asked for
  \<open>sz * 2 ^ (i + 1)\<close> bytes (each as a \<^verbatim>\<open>size_t\<close>); the buffer is a live block of that
  capacity, which is \<open>sz * 2 ^ k\<close> modulo \<open>2 ^ 32\<close> bytes unless \<^verbatim>\<open>size\<close> is negative.
  A fresh call starts the loop at \<open>sz = 256\<close>.
\<close>

theorem unknown_size_doubling:
  assumes run: "run ok vs fmt k (buffer, sz, st) = Inr (buffer', sz', st')"
    and neg: "\<forall>r\<in>set (reports (since st st')). r <s 0"
  shows "length (reports (since st st')) = k \<and> sz' = sz * 2 ^ k \<and>
    unat sz' = unat sz * 2 ^ k mod 2 ^ 32 \<and>
    caps (since st st') = map (\<lambda>i. size_t_of_int (sz * 2 ^ i)) [0..<k] \<and>
    growths (since st st') = map (\<lambda>i. size_t_of_int (sz * 2 ^ Suc i)) [0..<k] \<and>
    (0 < k \<longrightarrow> (\<exists>a' b'. buffer' = Ptr a' \<and> map_of (heap st') a' = Some b' \<and>
       cap b' = size_t_of_int (sz * 2 ^ k))) \<and>
    (0 \<le> sint sz' \<longrightarrow> size_t_of_int sz' = unat sz * 2 ^ k mod 2 ^ 32) \<and>
    loop ok vs fmt (buffer, sz, st) = loop ok vs fmt (buffer', sz', st')"
proof -
  from run_doubles [OF run] obtain es
    where t: "trace st' = trace st @ es" and l: "length (reports es) = k"
      and d: "(\<forall>r\<in>set (reports es). r <s 0) \<longrightarrow> sz' = sz * 2 ^ k"
    by blast
  from t have s: "since st st' = es" by (rule since_append)
  with neg d have sz': "sz' = sz * 2 ^ k" by simp
  from run_capacities [OF run] obtain es'
    where t': "trace st' = trace st @ es'"
      and c: "(\<forall>r\<in>set (reports es'). r <s 0) \<longrightarrow>
         caps es' = map (\<lambda>i. size_t_of_int (sz * 2 ^ i)) [0..<k] \<and>
         growths es' = map (\<lambda>i. size_t_of_int (sz * 2 ^ Suc i)) [0..<k]"
      and h: "0 < k \<longrightarrow> (\<exists>a' b'. buffer' = Ptr a' \<and> map_of (heap st') a' = Some b' \<and>
         cap b' = size_t_of_int sz')"
    by blast
  from t t' have "es' = es" by simp
  with c neg s have cg: "caps (since st st') = map (\<lambda>i. size_t_of_int (sz * 2 ^ i)) [0..<k]"
    "growths (since st st') = map (\<lambda>i. size_t_of_int (sz * 2 ^ Suc i)) [0..<k]"
    by simp_all
  have "unat (2 ^ k :: cint) = 2 ^ k mod 2 ^ 32"
    using unat_of_nat [of "2 ^ k", where 'a = 32] by simp
  then have u: "unat (sz * 2 ^ k) = unat sz * 2 ^ k mod 2 ^ 32"
    by (simp add: unat_word_ariths mod_mult_right_eq)
  have "size_t_of_int sz' = unat sz * 2 ^ k mod 2 ^ 32" if "0 \<le> sint sz'"
    using size_t_unat [OF that] u sz' by simp
  moreover have "loop ok vs fmt (buffer, sz, st) = loop ok vs fmt (buffer', sz', st')"
    using loop_run [of ok vs fmt "(buffer, sz, st)" k] run by simp
  ultimately show ?thesis using s l sz' cg h u by simp
qed

theorem unknown_size_doubling_witness:
  "(\<exists>buffer' sz' st'.
     run (\<lambda>i n. True) failing_vsnprintf ''%s'' 2 (Ptr 1, 256,
       \<lparr>heap = [(1, \<lparr>cap = 256, data = []\<rparr>)], nreq = 1,
        va = (\<lambda>x. None)(Vargs := Some [''hi'']), trace = [Malloc 256 (Ptr 1)]\<rparr>) =
       Inr (buffer', sz', st') \<and>
     list_all (\<lambda>r. r <s 0) (reports (since
       \<lparr>heap = [(1, \<lparr>cap = 256, data = []\<rparr>)], nreq = 1,
        va = (\<lambda>x. None)(Vargs := Some [''hi'']), trace = [Malloc 256 (Ptr 1)]\<rparr> st')) \<and>
     sz' = 1024 \<and> 0 \<le> sint sz' \<and> size_t_of_int sz' = 1024 \<and>
     caps (since
       \<lparr>heap = [(1, \<lparr>cap = 256, data = []\<rparr>)], nreq = 1,
        va = (\<lambda>x. None)(Vargs := Some [''hi'']), trace = [Malloc 256 (Ptr 1)]\<rparr> st') = [256, 512] \<and>
     growths (since
       \<lparr>heap = [(1, \<lparr>cap = 256, data = []\<rparr>)], nreq = 1,
        va = (\<lambda>x. None)(Vargs := Some [''hi'']), trace = [Malloc 256 (Ptr 1)]\<rparr> st') = [512, 1024] \<and>
     (\<exists>a' b'. buffer' = Ptr a' \<and> map_of (heap st') a' = Some b' \<and> cap b' = 1024)) \<and>
   (\<exists>buffer' sz' st'.
     run (\<lambda>i n. True) failing_vsnprintf ''%s'' 24 (Ptr 1, 256,
       \<lparr>heap = [(1, \<lparr>cap = 256, data = []\<rparr>)], nreq = 1,
        va = (\<lambda>x. None)(Vargs := Some [''hi'']), trace = [Malloc 256 (Ptr 1)]\<rparr>) =
       Inr (buffer', sz', st') \<and>
     list_all (\<lambda>r. r <s 0) (reports (since
       \<lparr>heap = [(1, \<lparr>cap = 256, data = []\<rparr>)], nreq = 1,
        va = (\<lambda>x. None)(Vargs := Some [''hi'']), trace = [Malloc 256 (Ptr 1)]\<rparr> st')) \<and>
     length (reports (since
       \<lparr>heap = [(1, \<lparr>cap = 256, data = []\<rparr>)], nreq = 1,
        va = (\<lambda>x. None)(Vargs := Some [''hi'']), trace = [Malloc 256 (Ptr 1)]\<rparr> st')) = 24 \<and>
     sz' = 0 \<and> unat sz' = 256 * 2 ^ 24 mod 2 ^ 32 \<and>
     (\<exists>a' b'. buffer' = Ptr a' \<and> map_of (heap st') a' = Some b' \<and> cap b' = 0))"
proof -
  let ?st = "\<lparr>heap = [(1, \<lparr>cap = 256, data = []\<rparr>)], nreq = 1,
        va = (\<lambda>x. None)(Vargs := Some [''hi'']), trace = [Malloc 256 (Ptr 1)]\<rparr> :: string state"
  have lv: "live [''hi''] [] 1 \<lparr>cap = 256, data = []\<rparr> 256 ?st"
    by (simp add: live_def size_t_256)
  have sizes: "size_t_of_int 256 = 256" "size_t_of_int 512 = 512" "size_t_of_int 1024 = 1024"
    "size_t_of_int 0 = 0"
    by (simp_all add: size_t_of_int_def)
  have two: "[0..<2] = [0, Suc 0]" by (simp add: numeral_2_eq_2)
  have first: "\<exists>buffer' sz' st'.
     run (\<lambda>i n. True) failing_vsnprintf ''%s'' 2 (Ptr 1, 256, ?st) = Inr (buffer', sz', st') \<and>
     list_all (\<lambda>r. r <s 0) (reports (since ?st st')) \<and>
     sz' = 1024 \<and> 0 \<le> sint sz' \<and> size_t_of_int sz' = 1024 \<and>
     caps (since ?st st') = [256, 512] \<and> growths (since ?st st') = [512, 1024] \<and>
     (\<exists>a' b'. buffer' = Ptr a' \<and> map_of (heap st') a' = Some b' \<and> cap b' = 1024)"
  proof -
    from failing_run [OF lv, of "''%s''" 2] obtain a' b' st' es
      where r: "run (\<lambda>i n. True) failing_vsnprintf ''%s'' 2 (Ptr 1, 256, ?st) =
          Inr (Ptr a', 256 * 2 ^ 2, st')"
        and t: "trace st' = trace ?st @ es" and rp: "reports es = replicate 2 (- 1)"
      by blast
    from t have s: "since ?st st' = es" by (rule since_append)
    have neg: "\<forall>r\<in>set (reports (since ?st st')). r <s 0"
      unfolding s rp by (simp add: word_sless_alt)
    note th = unknown_size_doubling [OF r neg]
    from th have "caps (since ?st st') = [256, 512]" and "growths (since ?st st') = [512, 1024]"
      by (simp_all add: two sizes)
    moreover from th have "\<exists>b'. map_of (heap st') a' = Some b' \<and> cap b' = 1024"
      by (simp add: sizes)
    moreover have "list_all (\<lambda>r. r <s 0) (reports (since ?st st'))"
      using neg by (simp add: list_all_iff)
    moreover have "(256 * 2 ^ 2 :: cint) = 1024" by simp
    ultimately show ?thesis using r by (auto simp: sizes)
  qed
  have second: "\<exists>buffer' sz' st'.
     run (\<lambda>i n. True) failing_vsnprintf ''%s'' 24 (Ptr 1, 256, ?st) = Inr (buffer', sz', st') \<and>
     list_all (\<lambda>r. r <s 0) (reports (since ?st st')) \<and>
     length (reports (since ?st st')) = 24 \<and>
     sz' = 0 \<and> unat sz' = 256 * 2 ^ 24 mod 2 ^ 32 \<and>
     (\<exists>a' b'. buffer' = Ptr a' \<and> map_of (heap st') a' = Some b' \<and> cap b' = 0)"
  proof -
    from failing_run [OF lv, of "''%s''" 24] obtain a' b' st' es
      where r: "run (\<lambda>i n. True) failing_vsnprintf ''%s'' 24 (Ptr 1, 256, ?st) =
          Inr (Ptr a', 256 * 2 ^ 24, st')"
        and t: "trace st' = trace ?st @ es" and rp: "reports es = replicate 24 (- 1)"
      by blast
    from t have s: "since ?st st' = es" by (rule since_append)
    have neg: "\<forall>r\<in>set (reports (since ?st st')). r <s 0"
      unfolding s rp by (simp add: word_sless_alt)
    note th = unknown_size_doubling [OF r neg]
    from th have "length (reports (since ?st st')) = 24" by simp
    moreover from th have "\<exists>b'. map_of (heap st') a' = Some b' \<and> cap b' = 0"
      by (auto simp: sizes)
    moreover have "list_all (\<lambda>r. r <s 0) (reports (since ?st st'))"
      using neg by (simp add: list_all_iff)
    ultimately show ?thesis using r by auto
  qed
  from first second show ?thesis by blast
qed

text \<open>
  Termination rests on the bound on the allocator. With an allocator that grants every
  request, even one of \<open>2 ^ 64 - 2 ^ 31\<close> bytes, and a facility that fails on every call,
  the sizes run through \<open>256, 512, \<dots>, 2 ^ 30, - 2 ^ 31, 0, 0, \<dots>\<close> and the call never
  returns.
\<close>

lemma unbounded_allocator_diverges:
  assumes "va st Vargs = Some args"
  shows "log_to_string (\<lambda>i n. True) failing_vsnprintf fmt st = None"
proof -
  obtain a st0 where m: "malloc (\<lambda>i n. True) (size_t_of_int 256) st = (Ptr a, st0)"
    by (simp add: malloc_eq)
  from live_malloc(1) [OF m assms] obtain b where lv: "live args (heap st) a b 256 st0" by blast
  have "loop (\<lambda>i n. True) failing_vsnprintf fmt (Ptr a, 256, st0) = None"
  proof (cases "loop (\<lambda>i n. True) failing_vsnprintf fmt (Ptr a, 256, st0)")
    case None
    then show ?thesis .
  next
    case (Some r)
    then obtain k where "run (\<lambda>i n. True) failing_vsnprintf fmt (Suc k) (Ptr a, 256, st0) = Inl r"
      using loop_returns_run by blast
    with failing_run [OF lv, of fmt "Suc k"] show ?thesis by auto
  qed
  with m show ?thesis by (simp add: log_to_string_def)
qed

subsection \<open>Allocation failure\<close>

lemma refused_append: "refused (xs @ ys) \<longleftrightarrow> refused xs \<or> refused ys"
  by (simp add: refused_def)

lemma refused_attempt: "\<not> refused (attempt_events a sz n)"
  by (simp add: refused_def attempt_events_def)

lemma body_va:
  "body ok vs fmt (buffer, sz, st) = x \<Longrightarrow> \<forall>e. x \<noteq> Inl (Inl e) \<Longrightarrow> \<exists>args. va st Vargs = Some args"
  by (auto simp: body_def attempt_def va_copy_def split: option.splits)

lemma run_va:
  "run ok vs fmt (Suc k) (buffer, sz, st) = Inl (Inr r) \<Longrightarrow> \<exists>args. va st Vargs = Some args"
  by (rule body_va [of ok vs fmt buffer sz st "body ok vs fmt (buffer, sz, st)"])
    (auto split: sum.splits)

lemma run_outcome:
  "live args h0 a b sz st \<Longrightarrow> run ok vs fmt k (Ptr a, sz, st) = Inl (Inr (p, st')) \<Longrightarrow>
    \<exists>es. trace st' = trace st @ es \<and>
      (case p of
         Ptr a' \<Rightarrow> \<not> refused es \<and> (\<exists>b'. heap st' = (a', b') # h0)
       | NULL \<Rightarrow> heap st' = h0 \<and>
           (\<exists>es0 a0 n. es = es0 @ [Realloc a0 n NULL, Free a0] \<and> \<not> refused es0))"
proof (induction k arbitrary: a b sz st)
  case 0
  then show ?case by simp
next
  case (Suc k)
  from Suc.prems(1) show ?case
  proof (cases rule: body_cases [where ok = ok and vs = vs and fmt = fmt])
    case overflow
    with Suc.prems(2) show ?thesis by simp
  next
    case (success st1)
    with Suc.prems(2) show ?thesis by (auto simp: refused_attempt)
  next
    case (refused st1)
    with Suc.prems(2) show ?thesis by (auto simp: refused_attempt)
  next
    case (grown a1 st1)
    let ?es1 = "attempt_events a sz (ret (vs (size_t_of_int sz) fmt args)) @
      [Realloc a (size_t_of_int (grow sz (ret (vs (size_t_of_int sz) fmt args)))) (Ptr a1)]"
    have nr: "\<not> refused ?es1" by (simp add: refused_append refused_attempt) (simp add: refused_def)
    from grown(4) Suc.prems(2)
    have "run ok vs fmt k (Ptr a1, grow sz (ret (vs (size_t_of_int sz) fmt args)), st1) =
        Inl (Inr (p, st'))"
      by simp
    from Suc.IH [OF grown(5) this] obtain es
      where t: "trace st' = trace st1 @ es"
        and c: "case p of
           Ptr a' \<Rightarrow> \<not> refused es \<and> (\<exists>b'. heap st' = (a', b') # h0)
         | NULL \<Rightarrow> heap st' = h0 \<and>
             (\<exists>es0 a0 n. es = es0 @ [Realloc a0 n NULL, Free a0] \<and> \<not> refused es0)"
      by blast
    from t grown(7) have t': "trace st' = trace st @ ?es1 @ es" by simp
    show ?thesis
    proof (cases p)
      case NULL
      with c obtain es0 a0 n where h: "heap st' = h0"
        and es: "es = es0 @ [Realloc a0 n NULL, Free a0]" and nr0: "\<not> refused es0"
        by auto
      have "?es1 @ es = (?es1 @ es0) @ [Realloc a0 n NULL, Free a0]" by (simp add: es)
      moreover have "\<not> refused (?es1 @ es0)" using nr nr0 by (simp only: refused_append) simp
      ultimately show ?thesis using NULL h t' by (intro exI [of _ "?es1 @ es"]) auto
    next
      case (Ptr a')
      with c have "\<not> refused es" and "\<exists>b'. heap st' = (a', b') # h0" by auto
      moreover then have "\<not> refused (?es1 @ es)" using nr by (simp only: refused_append) simp
      ultimately show ?thesis using Ptr t' by (intro exI [of _ "?es1 @ es"]) auto
    qed
  qed
qed

lemma growth_refused:
  fixes vs :: "'a formatter" and st :: "'a state" and fmt args
  defines "r \<equiv> vs 256 fmt args"
  defines "a \<equiv> fresh (heap st)"
  defines "m \<equiv> size_t_of_int (grow 256 (ret r))"
  assumes ok: "ok (nreq st) 256" and v: "va st Vargs = Some args"
    and fits: "length (written r) \<le> 256" and retry: "\<not> (- 1 <s ret r \<and> ret r <s 256)"
    and no: "\<not> ok (Suc (nreq st)) m"
  shows "log_to_string ok vs fmt st =
    Some (Inr (NULL,
      st\<lparr>nreq := Suc (Suc (nreq st)),
         va := (va st)(Vargs_copy := None),
         trace := trace st @ Malloc 256 (Ptr a) # attempt_events a 256 (ret r) @
           [Realloc a m NULL, Free a]\<rparr>))"
proof -
  let ?st1 = "st\<lparr>heap := (a, \<lparr>cap = 256, data = []\<rparr>) # heap st, nreq := Suc (nreq st),
     trace := trace st @ [Malloc 256 (Ptr a)]\<rparr>"
  have m: "malloc ok (size_t_of_int 256) st = (Ptr a, ?st1)"
    using ok by (simp add: malloc_eq size_t_256 a_def)
  have h: "heap ?st1 = (a, \<lparr>cap = 256, data = []\<rparr>) # heap st" by simp
  have nin: "a \<notin> fst ` set (heap st)" unfolding a_def by (rule fresh_notin)
  have v1: "va ?st1 Vargs = Some args" using v by simp
  have "body ok vs fmt (Ptr a, 256, ?st1) = Inl (Inr (NULL,
      st\<lparr>nreq := Suc (Suc (nreq st)),
         va := (va st)(Vargs_copy := None),
         trace := trace st @ Malloc 256 (Ptr a) # attempt_events a 256 (ret r) @
           [Realloc a m NULL, Free a]\<rparr>))"
    using fits retry no
    by (simp add: body_live [OF h nin v1] Let_def size_t_256 attempt_events_def
        flip: r_def m_def)
  then show ?thesis
    using m by (simp add: log_to_string_def loop.simps [of ok vs fmt "(Ptr a, 256, ?st1)"])
qed

text \<open>
  C5. \<^verbatim>\<open>log_to_string\<close> returns null exactly when an allocation request of the call was
  refused. When the first \<^verbatim>\<open>malloc\<close> is refused, it returns null at once, with no other
  library call. When it returns null otherwise, the last two library calls are the refused
  \<^verbatim>\<open>realloc\<close> and the \<^verbatim>\<open>free\<close> of the buffer held until then, and no earlier request was
  refused. In every case of a null result the heap is the heap from before the call (no
  block is leaked and none is left to the caller); a returned buffer is the only new block.
\<close>

theorem null_exactly_on_allocation_failure:
  "(\<not> ok (nreq st) 256 \<longrightarrow>
      log_to_string ok vs fmt st =
        Some (Inr (NULL, st\<lparr>nreq := Suc (nreq st), trace := trace st @ [Malloc 256 NULL]\<rparr>))) \<and>
   (log_to_string ok vs fmt st = Some (Inr (p, st')) \<longrightarrow>
      (p = NULL \<longleftrightarrow> refused (since st st')) \<and>
      (p = NULL \<longrightarrow> heap st' = heap st \<and>
         (since st st' = [Malloc 256 NULL] \<or>
          (\<exists>es a n. since st st' = es @ [Realloc a n NULL, Free a] \<and> \<not> refused es))) \<and>
      (\<forall>a. p = Ptr a \<longrightarrow> (\<exists>b. heap st' = (a, b) # heap st)))"
proof (intro conjI impI)
  assume "\<not> ok (nreq st) 256"
  then show "log_to_string ok vs fmt st =
      Some (Inr (NULL, st\<lparr>nreq := Suc (nreq st), trace := trace st @ [Malloc 256 NULL]\<rparr>))"
    by (simp add: log_to_string_def malloc_eq size_t_256)
next
  assume ret: "log_to_string ok vs fmt st = Some (Inr (p, st'))"
  have "(p = NULL \<longleftrightarrow> refused (since st st')) \<and>
      (p = NULL \<longrightarrow> heap st' = heap st \<and>
         (since st st' = [Malloc 256 NULL] \<or>
          (\<exists>es a n. since st st' = es @ [Realloc a n NULL, Free a] \<and> \<not> refused es))) \<and>
      (\<forall>a. p = Ptr a \<longrightarrow> (\<exists>b. heap st' = (a, b) # heap st))"
  proof (cases "ok (nreq st) 256")
    case False
    with ret have "p = NULL"
      and "st' = st\<lparr>nreq := Suc (nreq st), trace := trace st @ [Malloc 256 NULL]\<rparr>"
      by (simp_all add: log_to_string_def malloc_eq size_t_256)
    then show ?thesis by (simp add: since_def refused_def)
  next
    case True
    let ?a = "fresh (heap st)"
    obtain st0 where m: "malloc ok (size_t_of_int 256) st = (Ptr ?a, st0)"
      using True by (simp add: malloc_eq size_t_256)
    with ret have "loop ok vs fmt (Ptr ?a, 256, st0) = Some (Inr (p, st'))"
      by (simp add: log_to_string_def)
    then obtain k where r: "run ok vs fmt (Suc k) (Ptr ?a, 256, st0) = Inl (Inr (p, st'))"
      using loop_returns_run by blast
    from run_va [OF r] obtain args where "va st0 Vargs = Some args" by blast
    with m have v: "va st Vargs = Some args" by (auto simp: malloc_eq split: if_splits)
    note lm = live_malloc [OF m v]
    from run_outcome [OF lm(1) r] obtain es
      where t: "trace st' = trace st0 @ es"
        and c: "case p of
           Ptr a' \<Rightarrow> \<not> refused es \<and> (\<exists>b'. heap st' = (a', b') # heap st)
         | NULL \<Rightarrow> heap st' = heap st \<and>
             (\<exists>es0 a0 n. es = es0 @ [Realloc a0 n NULL, Free a0] \<and> \<not> refused es0)"
      by blast
    from t lm(2) have s: "since st st' = Malloc 256 (Ptr ?a) # es"
      by (simp add: since_def size_t_256)
    have rf: "refused (Malloc 256 (Ptr ?a) # xs) = refused xs" for xs
      by (simp add: refused_def)
    show ?thesis
    proof (cases p)
      case NULL
      with c obtain es0 a0 n where h: "heap st' = heap st"
        and es: "es = es0 @ [Realloc a0 n NULL, Free a0]" and nr0: "\<not> refused es0"
        by auto
      have "since st st' = (Malloc 256 (Ptr ?a) # es0) @ [Realloc a0 n NULL, Free a0]"
        by (simp add: s es)
      moreover have "\<not> refused (Malloc 256 (Ptr ?a) # es0)" using nr0 by (simp add: rf)
      moreover have "refused (since st st')" by (simp add: s es rf refused_append) (simp add: refused_def)
      ultimately show ?thesis using NULL h by blast
    next
      case (Ptr a')
      with c s show ?thesis by (simp add: rf)
    qed
  qed
  then show "p = NULL \<longleftrightarrow> refused (since st st')"
    and "p = NULL \<Longrightarrow> heap st' = heap st"
    and "p = NULL \<Longrightarrow> since st st' = [Malloc 256 NULL] \<or>
          (\<exists>es a n. since st st' = es @ [Realloc a n NULL, Free a] \<and> \<not> refused es)"
    and "\<forall>a. p = Ptr a \<longrightarrow> (\<exists>b. heap st' = (a, b) # heap st)"
    by simp_all
qed

theorem null_exactly_on_allocation_failure_witness:
  "log_to_string (\<lambda>i n. False) (c99_vsnprintf render_s used_s) ''%s''
       (start [replicate 300 (CHR ''x'')]) =
     Some (Inr (NULL, start [replicate 300 (CHR ''x'')]
       \<lparr>nreq := 1, trace := [Malloc 256 NULL]\<rparr>)) \<and>
   (\<exists>st'. log_to_string (\<lambda>i n. n \<le> 256) (c99_vsnprintf render_s used_s) ''%s''
         (start [replicate 300 (CHR ''x'')]) = Some (Inr (NULL, st')) \<and>
      refused (since (start [replicate 300 (CHR ''x'')]) st') \<and>
      heap st' = heap (start [replicate 300 (CHR ''x'')]) \<and>
      (\<exists>es a n. since (start [replicate 300 (CHR ''x'')]) st' =
          es @ [Realloc a n NULL, Free a] \<and> \<not> refused es)) \<and>
   (\<exists>a st'. log_to_string (\<lambda>i n. n \<le> 256) (c99_vsnprintf render_s used_s) ''%s''
         (start [''hi'']) = Some (Inr (Ptr a, st')) \<and>
      \<not> refused (since (start [''hi'']) st') \<and>
      (\<exists>b. heap st' = (a, b) # heap (start [''hi''])))"
proof -
  let ?vs = "c99_vsnprintf render_s used_s :: string formatter"
  let ?x = "[replicate 300 (CHR ''x'')]"
  let ?no = "\<lambda>(i::nat) (n::nat). False"
  let ?ok = "\<lambda>(i::nat) (n::nat). n \<le> 256"
  have r: "ret (?vs 256 ''%s'' ?x) = 300" by (simp add: c99_vsnprintf_def)
  have w: "written (?vs 256 ''%s'' ?x) = replicate 255 (CHR ''x'') @ [NUL]"
    by (simp add: c99_vsnprintf_def)
  have g: "size_t_of_int (grow 256 300) = 301"
    by (simp add: grow_def word_sless_alt size_t_of_int_def)
  have no: "\<not> ?no (nreq (start ?x)) 256" by simp
  have first: "log_to_string ?no ?vs ''%s'' (start ?x) =
      Some (Inr (NULL, start ?x\<lparr>nreq := 1, trace := [Malloc 256 NULL]\<rparr>))"
    using null_exactly_on_allocation_failure [of ?no "start ?x" ?vs "''%s''"] no
    by (simp add: start_def)
  have "\<exists>st2. log_to_string ?ok ?vs ''%s'' (start ?x) = Some (Inr (NULL, st2)) \<and>
      since (start ?x) st2 =
        Malloc 256 (Ptr 1) # attempt_events 1 256 300 @ [Realloc 1 301 NULL, Free 1]"
    using growth_refused [where ok = ?ok and st = "start ?x" and vs = ?vs and fmt = "''%s''"
        and args = ?x]
    by (simp add: r w g start_def since_def fresh_def)
  then obtain st2 where r2: "log_to_string ?ok ?vs ''%s'' (start ?x) = Some (Inr (NULL, st2))"
    and t2: "since (start ?x) st2 =
        Malloc 256 (Ptr 1) # attempt_events 1 256 300 @ [Realloc 1 301 NULL, Free 1]"
    by blast
  obtain a3 st3 where r3: "log_to_string ?ok ?vs ''%s'' (start [''hi'']) = Some (Inr (Ptr a3, st3))"
    using first_attempt [where ok = ?ok and st = "start [''hi'']" and vs = ?vs and fmt = "''%s''"
        and args = "[''hi'']"]
    by (simp add: start_def c99_vsnprintf_def word_sless_alt)
  from null_exactly_on_allocation_failure [of ?ok "start ?x" ?vs "''%s''" NULL st2] r2
  have second: "refused (since (start ?x) st2) \<and> heap st2 = heap (start ?x) \<and>
      (\<exists>es a n. since (start ?x) st2 = es @ [Realloc a n NULL, Free a] \<and> \<not> refused es)"
    by (auto simp: t2)
  from null_exactly_on_allocation_failure [of ?ok "start [''hi'']" ?vs "''%s''" "Ptr a3" st3] r3
  have third: "\<not> refused (since (start [''hi'']) st3) \<and>
      (\<exists>b. heap st3 = (a3, b) # heap (start [''hi'']))"
    by simp
  from first second third r2 r3 show ?thesis by blast
qed

subsection \<open>The argument lists\<close>

lemma va_discipline_append:
  "va_discipline xs \<Longrightarrow> va_discipline ys \<Longrightarrow> va_discipline (xs @ ys)"
  by (induction xs rule: va_discipline.induct) auto

lemma rendered_append:
  "rendered vs fmt args xs \<Longrightarrow> rendered vs fmt args ys \<Longrightarrow> rendered vs fmt args (xs @ ys)"
  by (simp add: rendered_def caps_append reports_append list_all2_appendI)

lemma run_va_discipline:
  "live args h0 a b sz st \<Longrightarrow> run ok vs fmt k (Ptr a, sz, st) = Inl (Inr (p, st')) \<Longrightarrow>
    \<exists>es. trace st' = trace st @ es \<and> va_discipline es \<and> rendered vs fmt args es \<and>
      va st' = (va st)(Vargs_copy := None)"
proof (induction k arbitrary: a b sz st)
  case 0
  then show ?case by simp
next
  case (Suc k)
  let ?n = "ret (vs (size_t_of_int sz) fmt args)"
  have d1: "va_discipline (attempt_events a sz ?n @ es)" if "va_discipline es" for es
    using that by (simp add: attempt_events_def)
  have r1: "rendered vs fmt args (attempt_events a sz ?n @ es)" if "rendered vs fmt args es" for es
    using that by (simp add: attempt_events_def rendered_def)
  from Suc.prems(1) show ?case
  proof (cases rule: body_cases [where ok = ok and vs = vs and fmt = fmt])
    case overflow
    with Suc.prems(2) show ?thesis by simp
  next
    case (success st1)
    moreover have "va_discipline (attempt_events a sz ?n)" using d1 [of "[]"] by simp
    moreover have "rendered vs fmt args (attempt_events a sz ?n)"
      using r1 [of "[]"] by (simp add: rendered_def)
    ultimately show ?thesis using Suc.prems(2) by auto
  next
    case (refused st1)
    let ?es = "[Realloc a (size_t_of_int (grow sz ?n)) NULL, Free a]"
    have "va_discipline (attempt_events a sz ?n @ ?es)" by (rule d1) simp
    moreover have "rendered vs fmt args (attempt_events a sz ?n @ ?es)"
      by (rule r1) (simp add: rendered_def)
    ultimately show ?thesis using refused Suc.prems(2) by auto
  next
    case (grown a1 st1)
    from grown(4) Suc.prems(2)
    have "run ok vs fmt k (Ptr a1, grow sz ?n, st1) = Inl (Inr (p, st'))" by simp
    from Suc.IH [OF grown(5) this] obtain es
      where t: "trace st' = trace st1 @ es" and d: "va_discipline es"
        and r: "rendered vs fmt args es" and v: "va st' = (va st1)(Vargs_copy := None)"
      by blast
    let ?es1 = "Realloc a (size_t_of_int (grow sz ?n)) (Ptr a1) # es"
    have "va_discipline (attempt_events a sz ?n @ ?es1)" by (rule d1) (simp add: d)
    moreover have "rendered vs fmt args (attempt_events a sz ?n @ ?es1)"
      by (rule r1) (use r in \<open>simp add: rendered_def\<close>)
    moreover have "trace st' = trace st @ attempt_events a sz ?n @ ?es1"
      using t grown(7) by simp
    moreover have "va st' = (va st)(Vargs_copy := None)" using v grown(6) by simp
    ultimately show ?thesis by blast
  qed
qed

text \<open>
  C8. Every rendering attempt reads \<open>Vargs_copy\<close>, copied from \<open>Vargs\<close> by the library call
  just before it and ended by the library call just after it, and no other call touches an
  argument list (\<open>va_discipline\<close>); each attempt was made on all the arguments the caller
  passed (\<open>rendered\<close>), so no attempt saw an advanced list. When \<^verbatim>\<open>log_to_string\<close> returns,
  the caller's \<open>Vargs\<close> holds what it held before, and \<open>Vargs_copy\<close> is not live unless no
  attempt was made.
\<close>

theorem original_arguments_untouched:
  assumes v: "va st Vargs = Some args"
    and ret: "log_to_string ok vs fmt st = Some (Inr (p, st'))"
  shows "va st' Vargs = Some args \<and>
    (va st' = va st \<or> va st' = (va st)(Vargs_copy := None)) \<and>
    va_discipline (since st st') \<and> rendered vs fmt args (since st st')"
proof (cases "malloc ok (size_t_of_int 256) st")
  case (Pair buffer st0)
  show ?thesis
  proof (cases buffer)
    case NULL
    with Pair ret have "st' = st0" by (simp add: log_to_string_def)
    with Pair NULL v show ?thesis
      by (auto simp: malloc_eq since_def rendered_def split: if_splits)
  next
    case (Ptr a)
    note lm = live_malloc [OF Pair [unfolded Ptr] v]
    from Pair Ptr ret have "loop ok vs fmt (Ptr a, 256, st0) = Some (Inr (p, st'))"
      by (simp add: log_to_string_def)
    then obtain k where "run ok vs fmt (Suc k) (Ptr a, 256, st0) = Inl (Inr (p, st'))"
      using loop_returns_run by blast
    from run_va_discipline [OF lm(1) this] obtain es
      where t: "trace st' = trace st0 @ es" and d: "va_discipline es"
        and r: "rendered vs fmt args es" and v': "va st' = (va st0)(Vargs_copy := None)"
      by blast
    from t lm(2) have s: "since st st' = Malloc (size_t_of_int 256) (Ptr a) # es"
      by (simp add: since_def)
    from v' lm(3) v have "va st' = (va st)(Vargs_copy := None)" and "va st' Vargs = Some args"
      by simp_all
    with s d r show ?thesis by (simp add: rendered_def)
  qed
qed

theorem original_arguments_untouched_witness:
  "va (start [replicate 300 (CHR ''x'')]) Vargs = Some [replicate 300 (CHR ''x'')] \<and>
   (\<exists>st'. log_to_string (\<lambda>i n. n \<le> 4096) (c99_vsnprintf render_s used_s) ''%s''
        (start [replicate 300 (CHR ''x'')]) = Some (Inr (Ptr 2, st')) \<and>
      since (start [replicate 300 (CHR ''x'')]) st' =
        Malloc 256 (Ptr 1) # attempt_events 1 256 300 @
        Realloc 1 301 (Ptr 2) # attempt_events 2 301 300 \<and>
      va st' Vargs = Some [replicate 300 (CHR ''x'')] \<and>
      va st' = va (start [replicate 300 (CHR ''x'')]) \<and>
      va_discipline (since (start [replicate 300 (CHR ''x'')]) st') \<and>
      rendered (c99_vsnprintf render_s used_s) ''%s'' [replicate 300 (CHR ''x'')]
        (since (start [replicate 300 (CHR ''x'')]) st'))"
proof -
  let ?vs = "c99_vsnprintf render_s used_s :: string formatter"
  let ?x = "[replicate 300 (CHR ''x'')]"
  let ?ok = "\<lambda>(i::nat) (n::nat). n \<le> 4096"
  have v: "va (start ?x) Vargs = Some ?x" by (simp add: start_def)
  have r: "ret (?vs n ''%s'' ?x) = 300" for n by (simp add: c99_vsnprintf_def)
  have w1: "written (?vs 256 ''%s'' ?x) = replicate 255 (CHR ''x'') @ [NUL]"
    by (simp add: c99_vsnprintf_def)
  have w2: "written (?vs 301 ''%s'' ?x) = replicate 300 (CHR ''x'') @ [NUL]"
    by (simp add: c99_vsnprintf_def)
  have g: "grow 256 300 = 301" by (simp add: grow_def word_sless_alt)
  have m: "size_t_of_int 301 = 301" by (simp add: size_t_of_int_def)
  have "\<exists>st'. log_to_string ?ok ?vs ''%s'' (start ?x) = Some (Inr (Ptr 2, st')) \<and>
      since (start ?x) st' = Malloc 256 (Ptr 1) # attempt_events 1 256 300 @
        Realloc 1 301 (Ptr 2) # attempt_events 2 301 300 \<and>
      va st' = va (start ?x)"
    using second_attempt [where ok = ?ok and st = "start ?x" and vs = ?vs and fmt = "''%s''"
        and args = ?x]
    by (simp add: r w1 w2 g m start_def since_def fresh_def word_sless_alt numeral_2_eq_2)
  then obtain st' where l: "log_to_string ?ok ?vs ''%s'' (start ?x) = Some (Inr (Ptr 2, st'))"
    and s: "since (start ?x) st' = Malloc 256 (Ptr 1) # attempt_events 1 256 300 @
        Realloc 1 301 (Ptr 2) # attempt_events 2 301 300"
    and e: "va st' = va (start ?x)"
    by blast
  from original_arguments_untouched [OF v l] v l s e show ?thesis by blast
qed

subsection \<open>A facility that reports the true length\<close>

lemma log_attempt [simp]:
  "caps (attempt_events a sz n @ es) = size_t_of_int sz # caps es"
  "reports (attempt_events a sz n @ es) = n # reports es"
  "growths (attempt_events a sz n @ es) = growths es"
  "caps (attempt_events a sz n) = [size_t_of_int sz]"
  "reports (attempt_events a sz n) = [n]"
  "growths (attempt_events a sz n) = []"
  by (simp_all add: attempt_events_def)

lemma true_length_run:
  fixes vs :: "'a formatter"
  assumes bnd: "bounded ok"
    and len: "\<forall>n. sint (ret (vs n fmt args)) = int L"
    and lv: "live args h0 a b 256 st"
  shows "\<exists>r. run ok vs fmt 2 (Ptr a, 256, st) = Inl r \<and>
    (\<forall>p st'. r = Inr (p, st') \<longrightarrow>
      (\<exists>es. trace st' = trace st @ es \<and> (caps es = [256] \<or> caps es = [256, Suc L]) \<and>
        length (reports es) \<le> 2 \<and> length (growths es) \<le> 1))"
proof -
  let ?n = "ret (vs (size_t_of_int 256) fmt args)"
  have two: "run ok vs fmt 2 c = (case body ok vs fmt c of Inl r \<Rightarrow> Inl r
      | Inr c' \<Rightarrow> (case body ok vs fmt c' of Inl r \<Rightarrow> Inl r | Inr c'' \<Rightarrow> Inr c''))" for c
    by (simp add: numeral_2_eq_2 split: sum.splits)
  have pos: "- 1 <s ret (vs n fmt args)" for n
    using len by (simp add: word_sless_alt)
  from lv show ?thesis
  proof (cases rule: body_cases [where ok = ok and vs = vs and fmt = fmt])
    case overflow
    then show ?thesis by (simp add: two)
  next
    case (success st1)
    let ?es = "attempt_events a 256 ?n"
    from success(4) have "run ok vs fmt 2 (Ptr a, 256, st) = Inl (Inr (Ptr a, st1))"
      by (simp add: two)
    moreover have "caps ?es = [256]" by (simp add: size_t_256)
    moreover have "length (reports ?es) \<le> 2" and "length (growths ?es) \<le> 1" by simp_all
    ultimately show ?thesis using success(7) by blast
  next
    case (refused st1)
    let ?es = "attempt_events a 256 ?n @ [Realloc a (size_t_of_int (grow 256 ?n)) NULL, Free a]"
    from refused(4) have "run ok vs fmt 2 (Ptr a, 256, st) = Inl (Inr (NULL, st1))"
      by (simp add: two)
    moreover have "caps ?es = [256]" by (simp add: size_t_256)
    moreover have "length (reports ?es) \<le> 2" and "length (growths ?es) \<le> 1" by simp_all
    ultimately show ?thesis using refused(7) by blast
  next
    case (grown a1 st1)
    let ?sz2 = "grow 256 ?n"
    let ?m = "size_t_of_int ?sz2"
    let ?n2 = "ret (vs ?m fmt args)"
    have g: "?sz2 = ?n + 1" using pos by (simp add: grow_def)
    from grown(3) bnd have "\<not> PTRDIFF_MAX < ?m" by (auto simp: bounded_def)
    then have nonneg: "0 \<le> sint ?sz2" using size_t_neg [of ?sz2] by fastforce
    have "sint ?n < 2147483647"
    proof (rule ccontr)
      assume "\<not> sint ?n < 2147483647"
      with sint_range [of ?n] have "sint ?n = 2147483647" by simp
      then have "sint (?n + 1) = - 2147483648" by (rule sint_succ_max)
      with nonneg g show False by simp
    qed
    then have s2: "sint ?sz2 = int L + 1" using len by (simp add: g sint_succ)
    then have m: "?m = Suc L" by (simp add: size_t_pos)
    have fin: "- 1 <s ?n2 \<and> ?n2 <s ?sz2" using pos len s2 by (simp add: word_sless_alt)
    let ?es = "attempt_events a 256 ?n @ Realloc a ?m (Ptr a1) # attempt_events a1 ?sz2 ?n2"
    from grown(5) show ?thesis
    proof (cases rule: body_cases [where ok = ok and vs = vs and fmt = fmt])
      case overflow
      with grown(4) show ?thesis by (simp add: two)
    next
      case (success st2)
      from grown(4) success(4)
      have "run ok vs fmt 2 (Ptr a, 256, st) = Inl (Inr (Ptr a1, st2))" by (simp add: two)
      moreover from success(7) grown(7) have "trace st2 = trace st @ ?es" by simp
      moreover have "caps ?es = [256, Suc L]" using m by (simp add: size_t_256)
      moreover have "length (reports ?es) \<le> 2" and "length (growths ?es) \<le> 1" by simp_all
      ultimately show ?thesis by blast
    next
      case (refused st2)
      with fin show ?thesis by simp
    next
      case (grown a2 st2)
      with fin show ?thesis by simp
    qed
  qed
qed

text \<open>
  C10. When the facility reports, at every buffer size, the true length \<open>L\<close> of the complete
  text (a non-negative \<^verbatim>\<open>int\<close>, as an ISO C99 \<^verbatim>\<open>vsnprintf\<close> does), \<^verbatim>\<open>log_to_string\<close> ends
  within two iterations: it makes at most two rendering attempts, the first at size 256 and
  the second at size \<open>L + 1\<close>, and at most one \<^verbatim>\<open>realloc\<close>; the second attempt satisfies the
  success condition. The allocator refuses requests above \<open>PTRDIFF_MAX\<close> (for
  \<open>L = INT_MAX\<close> the size \<open>L + 1\<close> wraps around and the one \<^verbatim>\<open>realloc\<close> is refused).
\<close>

theorem true_length_two_attempts:
  assumes bnd: "bounded ok" and v: "va st Vargs = Some args"
    and len: "\<forall>n. sint (ret (vs n fmt args)) = int (length (render fmt args))"
  shows "\<exists>r. log_to_string ok vs fmt st = Some r \<and>
    (\<forall>p st'. r = Inr (p, st') \<longrightarrow>
       length (reports (since st st')) \<le> 2 \<and> length (growths (since st st')) \<le> 1 \<and>
       (caps (since st st') = [] \<or> caps (since st st') = [256] \<or>
        caps (since st st') = [256, Suc (length (render fmt args))]))"
proof (cases "malloc ok (size_t_of_int 256) st")
  case (Pair buffer st0)
  show ?thesis
  proof (cases buffer)
    case NULL
    with Pair show ?thesis
      by (auto simp: log_to_string_def malloc_eq since_def split: if_splits)
  next
    case (Ptr a)
    note lm = live_malloc [OF Pair [unfolded Ptr] v]
    from true_length_run [where vs = vs and fmt = fmt and args = args, OF bnd len lm(1)] obtain r
      where r: "run ok vs fmt 2 (Ptr a, 256, st0) = Inl r"
        and c: "\<forall>p st'. r = Inr (p, st') \<longrightarrow>
          (\<exists>es. trace st' = trace st0 @ es \<and>
            (caps es = [256] \<or> caps es = [256, Suc (length (render fmt args))]) \<and>
            length (reports es) \<le> 2 \<and> length (growths es) \<le> 1)"
      by blast
    have l: "log_to_string ok vs fmt st = Some r"
      using Pair Ptr r loop_run [of ok vs fmt "(Ptr a, 256, st0)" 2]
      by (simp add: log_to_string_def)
    have "length (reports (since st st')) \<le> 2 \<and> length (growths (since st st')) \<le> 1 \<and>
       (caps (since st st') = [] \<or> caps (since st st') = [256] \<or>
        caps (since st st') = [256, Suc (length (render fmt args))])"
      if "r = Inr (p, st')" for p st'
    proof -
      from c that obtain es where t: "trace st' = trace st0 @ es"
        and cs: "caps es = [256] \<or> caps es = [256, Suc (length (render fmt args))]"
        and rs: "length (reports es) \<le> 2" and gs: "length (growths es) \<le> 1"
        by blast
      from t lm(2) have "since st st' = Malloc (size_t_of_int 256) (Ptr a) # es"
        by (simp add: since_def)
      with cs rs gs show ?thesis by auto
    qed
    with l show ?thesis by blast
  qed
qed


theorem true_length_two_attempts_witness:
  "bounded (\<lambda>i n. n \<le> 4096) \<and>
   va (start [replicate 300 (CHR ''x'')]) Vargs = Some [replicate 300 (CHR ''x'')] \<and>
   (\<forall>n. sint (ret (c99_vsnprintf render_s used_s n ''%s'' [replicate 300 (CHR ''x'')])) =
      int (length (render_s ''%s'' [replicate 300 (CHR ''x'')]))) \<and>
   (\<exists>st'. log_to_string (\<lambda>i n. n \<le> 4096) (c99_vsnprintf render_s used_s) ''%s''
        (start [replicate 300 (CHR ''x'')]) = Some (Inr (Ptr 2, st')) \<and>
      length (reports (since (start [replicate 300 (CHR ''x'')]) st')) \<le> 2 \<and>
      length (growths (since (start [replicate 300 (CHR ''x'')]) st')) \<le> 1 \<and>
      caps (since (start [replicate 300 (CHR ''x'')]) st') = [256, 301])"
proof -
  let ?vs = "c99_vsnprintf render_s used_s :: string formatter"
  let ?x = "[replicate 300 (CHR ''x'')]"
  let ?ok = "\<lambda>(i::nat) (n::nat). n \<le> 4096"
  have b: "bounded ?ok" by (simp add: bounded_def PTRDIFF_MAX_def)
  have v: "va (start ?x) Vargs = Some ?x" by (simp add: start_def)
  have r: "ret (?vs n ''%s'' ?x) = 300" for n by (simp add: c99_vsnprintf_def)
  have len: "\<forall>n. sint (ret (?vs n ''%s'' ?x)) = int (length (render_s ''%s'' ?x))"
    by (simp add: r)
  have w1: "written (?vs 256 ''%s'' ?x) = replicate 255 (CHR ''x'') @ [NUL]"
    by (simp add: c99_vsnprintf_def)
  have w2: "written (?vs 301 ''%s'' ?x) = replicate 300 (CHR ''x'') @ [NUL]"
    by (simp add: c99_vsnprintf_def)
  have g: "grow 256 300 = 301" by (simp add: grow_def word_sless_alt)
  have m: "size_t_of_int 301 = 301" by (simp add: size_t_of_int_def)
  have "\<exists>st'. log_to_string ?ok ?vs ''%s'' (start ?x) = Some (Inr (Ptr 2, st')) \<and>
      caps (since (start ?x) st') = [256, 301]"
    using second_attempt [where ok = ?ok and st = "start ?x" and vs = ?vs and fmt = "''%s''"
        and args = ?x]
    by (simp add: r w1 w2 g m start_def since_def fresh_def word_sless_alt numeral_2_eq_2
        size_t_256)
  then obtain st' where l: "log_to_string ?ok ?vs ''%s'' (start ?x) = Some (Inr (Ptr 2, st'))"
    and c: "caps (since (start ?x) st') = [256, 301]"
    by blast
  from true_length_two_attempts [where ok = ?ok and st = "start ?x" and vs = ?vs
      and fmt = "''%s''" and args = ?x and render = render_s, OF b v len] l
  have "length (reports (since (start ?x) st')) \<le> 2 \<and>
      length (growths (since (start ?x) st')) \<le> 1"
    by simp
  with b v len l c show ?thesis by blast
qed

subsection \<open>Determinism\<close>

lemma run_deterministic:
  fixes vs :: "'a formatter"
  shows "live args h1 a1 b sz st1 \<Longrightarrow> live args h2 a2 b sz st2 \<Longrightarrow>
    run ok1 vs fmt k1 (Ptr a1, sz, st1) = Inl (Inr (Ptr p1, st1')) \<Longrightarrow>
    run ok2 vs fmt k2 (Ptr a2, sz, st2) = Inl (Inr (Ptr p2, st2')) \<Longrightarrow>
    \<exists>es1 es2 b'. trace st1' = trace st1 @ es1 \<and> trace st2' = trace st2 @ es2 \<and>
      caps es1 = caps es2 \<and> reports es1 = reports es2 \<and>
      heap st1' = (p1, b') # h1 \<and> heap st2' = (p2, b') # h2"
proof (induction k1 arbitrary: k2 a1 a2 b sz st1 st2)
  case 0
  then show ?case by simp
next
  case (Suc k1)
  let ?n = "ret (vs (size_t_of_int sz) fmt args)"
  from Suc.prems(4) obtain k2' where k2: "k2 = Suc k2'" by (cases k2) auto
  note run1 = Suc.prems(3) and run2 = Suc.prems(4) [unfolded k2]
  from Suc.prems(1) show ?case
  proof (cases rule: body_cases [where ok = ok1 and vs = vs and fmt = fmt])
    case overflow
    with run1 show ?thesis by simp
  next
    case (refused s1)
    with run1 show ?thesis by simp
  next
    case (success s1)
    note o = success
    from Suc.prems(2) show ?thesis
    proof (cases rule: body_cases [where ok = ok2 and vs = vs and fmt = fmt])
      case overflow
      with run2 show ?thesis by simp
    next
      case (refused s2)
      with run2 show ?thesis by simp
    next
      case (grown a2' s2)
      with o(2,3) show ?thesis by simp
    next
      case (success s2)
      from o(4) run1 have "p1 = a1" "st1' = s1" by simp_all
      moreover from success(4) run2 have "p2 = a2" "st2' = s2" by simp_all
      moreover have "caps (attempt_events a1 sz ?n) = caps (attempt_events a2 sz ?n)"
        and "reports (attempt_events a1 sz ?n) = reports (attempt_events a2 sz ?n)"
        by simp_all
      ultimately show ?thesis using o(5,7) success(5,7) by blast
    qed
  next
    case (grown a1' s1)
    note o = grown
    from Suc.prems(2) show ?thesis
    proof (cases rule: body_cases [where ok = ok2 and vs = vs and fmt = fmt])
      case overflow
      with run2 show ?thesis by simp
    next
      case (refused s2)
      with run2 show ?thesis by simp
    next
      case (success s2)
      with o(2) show ?thesis by simp
    next
      case (grown a2' s2)
      from o(4) run1 have r1: "run ok1 vs fmt k1 (Ptr a1', grow sz ?n, s1) = Inl (Inr (Ptr p1, st1'))"
        by simp
      from grown(4) run2 have r2: "run ok2 vs fmt k2' (Ptr a2', grow sz ?n, s2) = Inl (Inr (Ptr p2, st2'))"
        by simp
      from Suc.IH [OF o(5) grown(5) r1 r2] obtain es1 es2 b'
        where t1: "trace st1' = trace s1 @ es1" and t2: "trace st2' = trace s2 @ es2"
          and c: "caps es1 = caps es2" and r: "reports es1 = reports es2"
          and h: "heap st1' = (p1, b') # h1" "heap st2' = (p2, b') # h2"
        by blast
      let ?m = "size_t_of_int (grow sz ?n)"
      let ?e1 = "attempt_events a1 sz ?n @ Realloc a1 ?m (Ptr a1') # es1"
      let ?e2 = "attempt_events a2 sz ?n @ Realloc a2 ?m (Ptr a2') # es2"
      have "trace st1' = trace st1 @ ?e1" using t1 o(7) by simp
      moreover have "trace st2' = trace st2 @ ?e2" using t2 grown(7) by simp
      moreover have "caps ?e1 = caps ?e2" and "reports ?e1 = reports ?e2" using c r by simp_all
      ultimately show ?thesis using h by blast
    qed
  qed
qed

text \<open>
  C7. Two calls with the same format string and equal argument values, to the same
  formatting facility (a function of the size, the format and the arguments), that both
  return a buffer return equal blocks: the same bytes and the same capacity. The sizes
  they attempted and the lengths reported to them are the same sequences. The two calls may
  start in different states (other heaps, other logs) and meet different allocators.
\<close>

theorem equal_inputs_equal_results:
  assumes args: "va st1 Vargs = va st2 Vargs"
    and ret1: "log_to_string ok1 vs fmt st1 = Some (Inr (Ptr a1, st1'))"
    and ret2: "log_to_string ok2 vs fmt st2 = Some (Inr (Ptr a2, st2'))"
  shows "(\<exists>b. map_of (heap st1') a1 = Some b \<and> map_of (heap st2') a2 = Some b) \<and>
    caps (since st1 st1') = caps (since st2 st2') \<and>
    reports (since st1 st1') = reports (since st2 st2')"
proof -
  obtain p1 s1 where m1: "malloc ok1 (size_t_of_int 256) st1 = (p1, s1)" by force
  obtain p2 s2 where m2: "malloc ok2 (size_t_of_int 256) st2 = (p2, s2)" by force
  from m1 ret1 obtain b1 where p1: "p1 = Ptr b1" by (cases p1) (auto simp: log_to_string_def)
  from m2 ret2 obtain b2 where p2: "p2 = Ptr b2" by (cases p2) (auto simp: log_to_string_def)
  from m1 p1 ret1 have "loop ok1 vs fmt (Ptr b1, 256, s1) = Some (Inr (Ptr a1, st1'))"
    by (simp add: log_to_string_def)
  then obtain k1 where r1: "run ok1 vs fmt (Suc k1) (Ptr b1, 256, s1) = Inl (Inr (Ptr a1, st1'))"
    using loop_returns_run by blast
  from m2 p2 ret2 have "loop ok2 vs fmt (Ptr b2, 256, s2) = Some (Inr (Ptr a2, st2'))"
    by (simp add: log_to_string_def)
  then obtain k2 where r2: "run ok2 vs fmt (Suc k2) (Ptr b2, 256, s2) = Inl (Inr (Ptr a2, st2'))"
    using loop_returns_run by blast
  from run_va [OF r1] obtain xs where "va s1 Vargs = Some xs" by blast
  with m1 have v1: "va st1 Vargs = Some xs" by (auto simp: malloc_eq split: if_splits)
  with args have v2: "va st2 Vargs = Some xs" by simp
  note l1 = live_malloc [OF m1 [unfolded p1] v1] and l2 = live_malloc [OF m2 [unfolded p2] v2]
  from run_deterministic [OF l1(1) l2(1) r1 r2] obtain es1 es2 b
    where t1: "trace st1' = trace s1 @ es1" and t2: "trace st2' = trace s2 @ es2"
      and c: "caps es1 = caps es2" and r: "reports es1 = reports es2"
      and h: "heap st1' = (a1, b) # heap st1" "heap st2' = (a2, b) # heap st2"
    by blast
  from t1 l1(2) have "since st1 st1' = Malloc (size_t_of_int 256) (Ptr b1) # es1"
    by (simp add: since_def)
  moreover from t2 l2(2) have "since st2 st2' = Malloc (size_t_of_int 256) (Ptr b2) # es2"
    by (simp add: since_def)
  ultimately show ?thesis using c r h by simp
qed


theorem equal_inputs_equal_results_witness:
  "va (start [replicate 300 (CHR ''x'')]) Vargs =
     va \<lparr>heap = [(5, \<lparr>cap = 8, data = ''old''\<rparr>)], nreq = 7,
         va = (\<lambda>x. None)(Vargs := Some [replicate 300 (CHR ''x'')]),
         trace = [Free 3]\<rparr> Vargs \<and>
   (\<exists>st1' st2'.
      log_to_string (\<lambda>i n. n \<le> 4096) (c99_vsnprintf render_s used_s) ''%s''
        (start [replicate 300 (CHR ''x'')]) = Some (Inr (Ptr 2, st1')) \<and>
      log_to_string (\<lambda>i n. i < 100) (c99_vsnprintf render_s used_s) ''%s''
        \<lparr>heap = [(5, \<lparr>cap = 8, data = ''old''\<rparr>)], nreq = 7,
         va = (\<lambda>x. None)(Vargs := Some [replicate 300 (CHR ''x'')]),
         trace = [Free 3]\<rparr> = Some (Inr (Ptr 7, st2')) \<and>
      (\<exists>b. map_of (heap st1') 2 = Some b \<and> map_of (heap st2') 7 = Some b) \<and>
      caps (since (start [replicate 300 (CHR ''x'')]) st1') =
        caps (since \<lparr>heap = [(5, \<lparr>cap = 8, data = ''old''\<rparr>)], nreq = 7,
          va = (\<lambda>x. None)(Vargs := Some [replicate 300 (CHR ''x'')]),
          trace = [Free 3]\<rparr> st2') \<and>
      reports (since (start [replicate 300 (CHR ''x'')]) st1') =
        reports (since \<lparr>heap = [(5, \<lparr>cap = 8, data = ''old''\<rparr>)], nreq = 7,
          va = (\<lambda>x. None)(Vargs := Some [replicate 300 (CHR ''x'')]),
          trace = [Free 3]\<rparr> st2'))"
proof -
  let ?vs = "c99_vsnprintf render_s used_s :: string formatter"
  let ?x = "[replicate 300 (CHR ''x'')]"
  let ?ok1 = "\<lambda>(i::nat) (n::nat). n \<le> 4096"
  let ?ok2 = "\<lambda>(i::nat) (n::nat). i < 100"
  let ?st2 = "\<lparr>heap = [(5, \<lparr>cap = 8, data = ''old''\<rparr>)], nreq = 7,
         va = (\<lambda>x. None)(Vargs := Some ?x), trace = [Free 3]\<rparr> :: string state"
  have v: "va (start ?x) Vargs = va ?st2 Vargs" by (simp add: start_def)
  have r: "ret (?vs n ''%s'' ?x) = 300" for n by (simp add: c99_vsnprintf_def)
  have w1: "written (?vs 256 ''%s'' ?x) = replicate 255 (CHR ''x'') @ [NUL]"
    by (simp add: c99_vsnprintf_def)
  have w2: "written (?vs 301 ''%s'' ?x) = replicate 300 (CHR ''x'') @ [NUL]"
    by (simp add: c99_vsnprintf_def)
  have g: "grow 256 300 = 301" by (simp add: grow_def word_sless_alt)
  have m: "size_t_of_int 301 = 301" by (simp add: size_t_of_int_def)
  have "\<exists>st'. log_to_string ?ok1 ?vs ''%s'' (start ?x) = Some (Inr (Ptr 2, st'))"
    using second_attempt [where ok = ?ok1 and st = "start ?x" and vs = ?vs and fmt = "''%s''"
        and args = ?x]
    by (simp add: r w1 w2 g m start_def fresh_def word_sless_alt numeral_2_eq_2)
  then obtain st1' where l1: "log_to_string ?ok1 ?vs ''%s'' (start ?x) = Some (Inr (Ptr 2, st1'))"
    by blast
  have "\<exists>st'. log_to_string ?ok2 ?vs ''%s'' ?st2 = Some (Inr (Ptr 7, st'))"
    using second_attempt [where ok = ?ok2 and st = ?st2 and vs = ?vs and fmt = "''%s''"
        and args = ?x]
    by (simp add: r w1 w2 g m fresh_def word_sless_alt)
  then obtain st2' where l2: "log_to_string ?ok2 ?vs ''%s'' ?st2 = Some (Inr (Ptr 7, st2'))"
    by blast
  from equal_inputs_equal_results [OF v l1 l2] v l1 l2 show ?thesis by blast
qed

subsection \<open>\<^verbatim>\<open>log_to_string_free\<close>\<close>

text \<open>
  C9. \<^verbatim>\<open>log_to_string_free\<close> applied to the null pointer is a no-op: it does not fail, it
  releases no block and logs no library call, and the state is the one it was given.
\<close>

theorem release_null_noop: "log_to_string_free NULL st = Inr st"
  by (simp add: log_to_string_free_def free_def)

end
